theory Spec2Isabelle
  imports Complex_Main "HOL-Library.AList"
begin

section \<open>Grid-based path planner: the cell grid, the cell graph and the path search\<close>

text \<open>
  The development follows \<^verbatim>\<open>src/vectorGrid.py\<close> (class \<^verbatim>\<open>VectorGrid\<close>) and
  \<^verbatim>\<open>src/GraphGrid.py\<close> (class \<^verbatim>\<open>GraphGrid\<close>).  Coordinates are real numbers.  The
  rotation of a geometry goes through the floating-point operations of the machine, which
  are parameters of the model (the rounding of a result, the cosine, the sine and the constant
  \<^verbatim>\<open>math.pi\<close>); they are instantiated with exact arithmetic and with binary64 arithmetic.  The
  other computations (distances, centroids, bounds) are carried out exactly.  Mutation of \<^verbatim>\<open>self\<close> is explicit state passing, a raised
  exception is the left injection of a sum.
\<close>

subsection \<open>Errors\<close>

datatype message =
    MaxEmptySequence
  | RangeStepZero
  | SecondGeometryEmpty
  | StartNotInGraph int
  | EndNotInGraph int

datatype error =
    ValueError message
  | AttributeError
  | IndexError
  | KeyError
  | NodeNotFound
  | NetworkXNoPath int int

subsection \<open>Geometries\<close>

type_synonym point = "real \<times> real"

datatype geometry =
    Point point
  | LineString "point list"
  | Polygon "point list" "point list list"
  | GeometryCollection "geometry list"

text \<open>\<^verbatim>\<open>shapely.geometry.box(minx, miny, maxx, maxy)\<close>: the counter-clockwise closed ring.\<close>

definition box :: "real \<Rightarrow> real \<Rightarrow> real \<Rightarrow> real \<Rightarrow> geometry" where
  "box minx miny maxx maxy =
     Polygon [(maxx, miny), (maxx, maxy), (minx, maxy), (minx, miny), (maxx, miny)] []"

text \<open>\<^verbatim>\<open>Point.distance(Point)\<close>: the Euclidean distance.\<close>

definition distance :: "point \<Rightarrow> point \<Rightarrow> real" where
  "distance p q = sqrt ((fst p - fst q)\<^sup>2 + (snd p - snd q)\<^sup>2)"

text \<open>A coordinate map applied to every coordinate of a geometry.\<close>

primrec affine_transform :: "(point \<Rightarrow> point) \<Rightarrow> geometry \<Rightarrow> geometry" where
  "affine_transform f (Point p) = Point (f p)"
| "affine_transform f (LineString ps) = LineString (map f ps)"
| "affine_transform f (Polygon shell holes) = Polygon (map f shell) (map (map f) holes)"
| "affine_transform f (GeometryCollection gs) = GeometryCollection (map (affine_transform f) gs)"

text \<open>\<^verbatim>\<open>polygon.exterior.coords\<close>: only a polygon has an exterior ring.\<close>

fun exterior_coords :: "geometry \<Rightarrow> error + point list" where
  "exterior_coords (Polygon shell holes) = Inr shell"
| "exterior_coords _ = Inl AttributeError"

subsection \<open>The geometry library\<close>

text \<open>
  The predicates and constructions that the program takes from its geometry library
  are parameters of the model.
  \<^item> \<open>centroid g\<close> is \<^verbatim>\<open>g.centroid\<close>;
  \<^item> \<open>intersects a b\<close> is \<^verbatim>\<open>a.intersects(b)\<close>;
  \<^item> \<open>buffer g d\<close> is \<^verbatim>\<open>g.buffer(d)\<close>;
  \<^item> \<open>buffer_bounds g d\<close> is \<^verbatim>\<open>g.buffer(d).bounds\<close>, as \<open>(minx, miny, maxx, maxy)\<close>;
  \<^item> \<open>intersection a b\<close> is \<^verbatim>\<open>a.intersection(b)\<close>.

  The operations that go through the spatial index of the library (\<^verbatim>\<open>geopandas.clip\<close> and
  \<^verbatim>\<open>sjoin\<close>) return their rows in the order of the index, which the program does not choose:
  \<^item> \<open>clip_rank mask g\<close> is the place of the geometry \<open>g\<close> among the rows that \<^verbatim>\<open>clip\<close> returns
    for \<open>mask\<close>;
  \<^item> \<open>sjoin_rank a b\<close> is the place of the pair of geometries \<open>(a, b)\<close> among the rows that
    \<^verbatim>\<open>sjoin\<close> returns.

  Rows of the same rank keep their order.  So is the arithmetic in which the library rotates:
  \<^item> \<open>fl x\<close> is the floating-point number that stands for the exact result \<open>x\<close> of an
    operation or of a literal;
  \<^item> \<open>math_cos\<close>, \<open>math_sin\<close> and \<open>math_pi\<close> are \<^verbatim>\<open>math.cos\<close>, \<^verbatim>\<open>math.sin\<close> and \<^verbatim>\<open>math.pi\<close>.
\<close>

record geos =
  centroid :: "geometry \<Rightarrow> point"
  intersects :: "geometry \<Rightarrow> geometry \<Rightarrow> bool"
  buffer :: "geometry \<Rightarrow> real \<Rightarrow> geometry"
  buffer_bounds :: "geometry \<Rightarrow> real \<Rightarrow> real \<times> real \<times> real \<times> real"
  intersection :: "geometry \<Rightarrow> geometry \<Rightarrow> geometry"
  clip_rank :: "geometry \<Rightarrow> geometry \<Rightarrow> nat"
  sjoin_rank :: "geometry \<Rightarrow> geometry \<Rightarrow> nat"
  fl :: "real \<Rightarrow> real"
  math_cos :: "real \<Rightarrow> real"
  math_sin :: "real \<Rightarrow> real"
  math_pi :: real

text \<open>
  \<^verbatim>\<open>shapely.affinity.rotate(geom, angle, origin, use_radians=False)\<close>: the angle is in
  degrees and positive angles turn counter-clockwise.  The function converts the angle
  (\<^verbatim>\<open>angle * pi/180.0\<close>), sets a cosine or sine below \<^verbatim>\<open>2.5e-16\<close> in absolute value to zero,
  and builds the matrix \<open>(a, b, d, e, xoff, yoff)\<close> of the affine map, with
  \<^verbatim>\<open>xoff = x0 - x0 * cosp + y0 * sinp\<close> and \<^verbatim>\<open>yoff = y0 - x0 * sinp - y0 * cosp\<close>.
\<close>

definition clamp :: "geos \<Rightarrow> real \<Rightarrow> real" where
  "clamp L v = (if \<bar>v\<bar> < fl L (25 / 10 ^ 17) then 0 else v)"

definition rotate_matrix ::
  "geos \<Rightarrow> real \<Rightarrow> point \<Rightarrow> real \<times> real \<times> real \<times> real \<times> real \<times> real" where
  "rotate_matrix L angle origin =
     (let angle' = fl L (fl L (angle * math_pi L) / 180);
          cosp = clamp L (math_cos L angle');
          sinp = clamp L (math_sin L angle');
          x0 = fst origin; y0 = snd origin;
          xoff = fl L (fl L (x0 - fl L (x0 * cosp)) + fl L (y0 * sinp));
          yoff = fl L (fl L (y0 - fl L (x0 * sinp)) - fl L (y0 * cosp))
      in (cosp, - sinp, sinp, cosp, xoff, yoff))"

text \<open>
  \<^verbatim>\<open>shapely.affinity.affine_transform\<close> on a coordinate:
  \<^verbatim>\<open>xp = a * x + b * y + xoff\<close> and \<^verbatim>\<open>yp = d * x + e * y + yoff\<close>.
\<close>

definition affine_point ::
  "geos \<Rightarrow> real \<times> real \<times> real \<times> real \<times> real \<times> real \<Rightarrow> point \<Rightarrow> point" where
  "affine_point L matrix p =
     (case matrix of (a, b, d, e, xoff, yoff) \<Rightarrow>
        (fl L (fl L (fl L (a * fst p) + fl L (b * snd p)) + xoff),
         fl L (fl L (fl L (d * fst p) + fl L (e * snd p)) + yoff)))"

definition rotate_point :: "geos \<Rightarrow> real \<Rightarrow> point \<Rightarrow> point \<Rightarrow> point" where
  "rotate_point L angle origin p = affine_point L (rotate_matrix L angle origin) p"

definition rotate_geom :: "geos \<Rightarrow> real \<Rightarrow> point \<Rightarrow> geometry \<Rightarrow> geometry" where
  "rotate_geom L angle origin g = affine_transform (rotate_point L angle origin) g"

subsection \<open>The grid\<close>

text \<open>A row of the grid's data frame: the columns \<^verbatim>\<open>geometry\<close>, \<^verbatim>\<open>passable\<close>, \<^verbatim>\<open>id\<close>.\<close>

record cell =
  geometry :: geometry
  passable :: bool
  cell_id :: int

text \<open>The attributes of a \<^verbatim>\<open>VectorGrid\<close> object.\<close>

record vector_grid =
  polygon :: geometry
  cell_size :: int
  rotation :: "real option"
  obstacle :: "geometry list option"
  grid :: "cell list"

text \<open>Python's \<^verbatim>\<open>int(x)\<close> on a float truncates towards zero.\<close>

definition py_int :: "real \<Rightarrow> int" where
  "py_int x = (if 0 \<le> x then \<lfloor>x\<rfloor> else \<lceil>x\<rceil>)"

text \<open>\<^verbatim>\<open>list(range(start, stop, step))\<close>; a zero step raises \<^verbatim>\<open>ValueError\<close>.\<close>

definition py_range :: "int \<Rightarrow> int \<Rightarrow> int \<Rightarrow> error + int list" where
  "py_range start stop step =
     (if step = 0 then Inl (ValueError RangeStepZero)
      else if 0 < step
        then Inr (map (\<lambda>k. start + int k * step) [0 ..< nat ((stop - start + step - 1) div step)])
        else Inr (map (\<lambda>k. start + int k * step) [0 ..< nat ((start - stop - step - 1) div (- step))]))"

text \<open>\<^verbatim>\<open>max(...)\<close> over a generator; the empty sequence raises \<^verbatim>\<open>ValueError\<close>.\<close>

definition py_max :: "real list \<Rightarrow> error + real" where
  "py_max xs = (case xs of [] \<Rightarrow> Inl (ValueError MaxEmptySequence) | y # ys \<Rightarrow> Inr (fold max ys y))"

text \<open>\<^verbatim>\<open>grid['id'] = range(len(grid))\<close>: the ids are assigned by position.\<close>

definition assign_ids :: "cell list \<Rightarrow> cell list" where
  "assign_ids cs = map (\<lambda>(c, i). c\<lparr>cell_id := int i\<rparr>) (zip cs [0 ..< length cs])"

text \<open>
  \<^verbatim>\<open>~grid['geometry'].apply(lambda cell: any(cell.intersects(o) for o in obstacle.geometry))\<close>
\<close>

definition obstacle_free :: "geos \<Rightarrow> geometry list \<Rightarrow> geometry \<Rightarrow> bool" where
  "obstacle_free L obstacles g = (\<not> list_ex (\<lambda>ob. intersects L g ob) obstacles)"

text \<open>
  The first statement of \<^verbatim>\<open>create_vector_grid\<close>: the largest distance from the
  centroid of the boundary polygon to a vertex of its exterior ring.
\<close>

definition polygon_buffer :: "geos \<Rightarrow> geometry \<Rightarrow> error + real" where
  "polygon_buffer L poly =
     (case exterior_coords poly of
        Inl e \<Rightarrow> Inl e
      | Inr coords \<Rightarrow> py_max (map (\<lambda>coord. distance (centroid L poly) coord) coords))"

text \<open>The two nested loops over \<^verbatim>\<open>x_coords\<close> and \<^verbatim>\<open>y_coords\<close>.\<close>

definition grid_polys :: "int \<Rightarrow> int list \<Rightarrow> int list \<Rightarrow> geometry list" where
  "grid_polys cs x_coords y_coords =
     concat (map (\<lambda>x. map (\<lambda>y.
         box (real_of_int x) (real_of_int y) (real_of_int (x + cs)) (real_of_int (y + cs)))
       y_coords) x_coords)"

text \<open>
  The rest of \<^verbatim>\<open>create_vector_grid\<close>, from the list of boxes on: the rotation, the
  \<^verbatim>\<open>passable\<close> column and the \<^verbatim>\<open>id\<close> column.  The new rows carry the id \<open>0\<close>
  until the last statement assigns the ids.
\<close>

definition grid_frame ::
  "geos \<Rightarrow> geometry \<Rightarrow> real option \<Rightarrow> geometry list option \<Rightarrow> geometry list \<Rightarrow> cell list" where
  "grid_frame L poly rot obs polys =
     (let rotated = (case rot of None \<Rightarrow> polys
                     | Some r \<Rightarrow> map (rotate_geom L r (centroid L poly)) polys);
          rows = map (\<lambda>g. \<lparr>geometry = g,
                            passable = (case obs of None \<Rightarrow> True | Some os \<Rightarrow> obstacle_free L os g),
                            cell_id = 0\<rparr>) rotated
      in assign_ids rows)"

text \<open>\<^verbatim>\<open>VectorGrid.create_vector_grid\<close>.\<close>

definition create_vector_grid ::
  "geos \<Rightarrow> geometry \<Rightarrow> int \<Rightarrow> real option \<Rightarrow> geometry list option \<Rightarrow> error + cell list" where
  "create_vector_grid L poly cs rot obs =
     (case polygon_buffer L poly of
        Inl e \<Rightarrow> Inl e
      | Inr buf \<Rightarrow>
         (case buffer_bounds L poly buf of
            (minx, miny, maxx, maxy) \<Rightarrow>
              (case py_range (py_int minx) (py_int maxx) cs of
                 Inl e \<Rightarrow> Inl e
               | Inr x_coords \<Rightarrow>
                  (case py_range (py_int miny) (py_int maxy) cs of
                     Inl e \<Rightarrow> Inl e
                   | Inr y_coords \<Rightarrow>
                       Inr (grid_frame L poly rot obs (grid_polys cs x_coords y_coords))))))"

text \<open>\<^verbatim>\<open>VectorGrid.__init__\<close> (the reprojection of the inputs is outside the model).\<close>

definition init_vector_grid ::
  "geos \<Rightarrow> geometry \<Rightarrow> int \<Rightarrow> real option \<Rightarrow> geometry list option \<Rightarrow> error + vector_grid" where
  "init_vector_grid L poly cs rot obs =
     (case create_vector_grid L poly cs rot obs of Inl e \<Rightarrow> Inl e
      | Inr g \<Rightarrow> Inr \<lparr>polygon = poly, cell_size = cs, rotation = rot, obstacle = obs, grid = g\<rparr>)"

text \<open>
  \<^verbatim>\<open>VectorGrid.clip\<close>: \<^verbatim>\<open>geopandas.clip\<close> keeps the rows that intersect the mask, in the
  order of the spatial index, and replaces each geometry by its intersection with the mask.
\<close>

definition clip :: "geos \<Rightarrow> vector_grid \<Rightarrow> vector_grid" where
  "clip L vg =
     vg\<lparr>grid := assign_ids
           (map (\<lambda>c. c\<lparr>geometry := intersection L (geometry c) (polygon vg)\<rparr>)
              (sort_key (\<lambda>c. clip_rank L (polygon vg) (geometry c))
                 (filter (\<lambda>c. intersects L (geometry c) (polygon vg)) (grid vg))))\<rparr>"

text \<open>\<^verbatim>\<open>VectorGrid.intersect\<close>: a boolean row mask, then the ids.\<close>

definition intersect :: "geos \<Rightarrow> vector_grid \<Rightarrow> vector_grid" where
  "intersect L vg =
     vg\<lparr>grid := assign_ids (filter (\<lambda>c. intersects L (geometry c) (polygon vg)) (grid vg))\<rparr>"

text \<open>\<^verbatim>\<open>VectorGrid.add_obstacle\<close> and \<^verbatim>\<open>VectorGrid.clear_obstacle\<close>.\<close>

definition add_obstacle :: "geos \<Rightarrow> geometry list \<Rightarrow> vector_grid \<Rightarrow> vector_grid" where
  "add_obstacle L obs vg =
     vg\<lparr>obstacle := Some obs,
        grid := map (\<lambda>c. c\<lparr>passable := obstacle_free L obs (geometry c)\<rparr>) (grid vg)\<rparr>"

definition clear_obstacle :: "vector_grid \<Rightarrow> vector_grid" where
  "clear_obstacle vg = vg\<lparr>obstacle := None, grid := map (\<lambda>c. c\<lparr>passable := True\<rparr>) (grid vg)\<rparr>"


subsection \<open>Nearest-cell lookup\<close>

text \<open>
  \<^verbatim>\<open>GeoSeries.unary_union\<close> on points: the multi-point of the distinct coordinates, which
  the library returns in coordinate order (by \<open>x\<close>, then by \<open>y\<close>).
\<close>

definition coord_less :: "point \<Rightarrow> point \<Rightarrow> bool" where
  "coord_less p q = (fst p < fst q \<or> (fst p = fst q \<and> snd p < snd q))"

fun insert_coord :: "point \<Rightarrow> point list \<Rightarrow> point list" where
  "insert_coord p [] = [p]"
| "insert_coord p (q # qs) =
     (if p = q then q # qs
      else if coord_less p q then p # q # qs
      else q # insert_coord p qs)"

definition unary_union :: "point list \<Rightarrow> point list" where
  "unary_union ps = foldr insert_coord ps []"

text \<open>
  \<^verbatim>\<open>nearest_points(point, multipoint)[1]\<close>: the library scans the members of the multi-point
  in their order and keeps a member only when it is strictly nearer than the best so far;
  an empty second geometry raises \<^verbatim>\<open>ValueError\<close>.
\<close>

definition nearest_points :: "point \<Rightarrow> point list \<Rightarrow> error + point" where
  "nearest_points p multipoint =
     (case multipoint of
        [] \<Rightarrow> Inl (ValueError SecondGeometryEmpty)
      | q # qs \<Rightarrow> Inr (fold (\<lambda>r best. if distance p r < distance p best then r else best) qs q))"

text \<open>
  \<^verbatim>\<open>VectorGrid.closest_cell_id\<close>.  The last statement selects the rows of the whole grid
  whose centroid equals the nearest point and takes the id of the first of them;
  \<^verbatim>\<open>.values[0]\<close> on an empty selection raises \<^verbatim>\<open>IndexError\<close>.
\<close>

definition closest_cell_id :: "geos \<Rightarrow> vector_grid \<Rightarrow> point \<Rightarrow> error + int" where
  "closest_cell_id L vg utm_coordinates =
     (let multipoint = unary_union (map (\<lambda>c. centroid L (geometry c)) (filter passable (grid vg)))
      in case nearest_points utm_coordinates multipoint of
           Inl e \<Rightarrow> Inl e
         | Inr nearest \<Rightarrow>
            (case filter (\<lambda>c. centroid L (geometry c) = nearest) (grid vg) of
               [] \<Rightarrow> Inl IndexError
             | c # _ \<Rightarrow> Inr (cell_id c)))"

subsection \<open>An instance of the geometry library\<close>

text \<open>
  To run the model on concrete inputs, the library is instantiated in exact arithmetic
  (no result is rounded, and the cosine, the sine and \<open>pi\<close> are the real ones), with a
  spatial index that keeps the rows in their order:
  the centroid of a polygon is the area centroid of its exterior ring (the polygons of the
  scenarios have no holes and a non-zero area), and every other operation works on
  bounding boxes, which is exact for the bounds of a buffered axis-parallel rectangle.
\<close>

definition ring_area2 :: "point list \<Rightarrow> real" where
  "ring_area2 ring =
     sum_list (map (\<lambda>(p, q). fst p * snd q - fst q * snd p) (zip ring (tl ring)))"

definition ring_centroid :: "point list \<Rightarrow> point" where
  "ring_centroid ring =
     (sum_list (map (\<lambda>(p, q). (fst p + fst q) * (fst p * snd q - fst q * snd p)) (zip ring (tl ring)))
        / (3 * ring_area2 ring),
      sum_list (map (\<lambda>(p, q). (snd p + snd q) * (fst p * snd q - fst q * snd p)) (zip ring (tl ring)))
        / (3 * ring_area2 ring))"

fun area_centroid :: "geometry \<Rightarrow> point" where
  "area_centroid (Point p) = p"
| "area_centroid (Polygon shell holes) = ring_centroid shell"
| "area_centroid _ = (0, 0)"

fun coords :: "geometry \<Rightarrow> point list" where
  "coords (Point p) = [p]"
| "coords (LineString ps) = ps"
| "coords (Polygon shell holes) = shell"
| "coords (GeometryCollection gs) = concat (map coords gs)"

definition bounds :: "geometry \<Rightarrow> real \<times> real \<times> real \<times> real" where
  "bounds g =
     (case coords g of
        [] \<Rightarrow> (0, 0, 0, 0)
      | p # ps \<Rightarrow> (fold min (map fst ps) (fst p), fold min (map snd ps) (snd p),
                  fold max (map fst ps) (fst p), fold max (map snd ps) (snd p)))"

definition expand :: "real \<times> real \<times> real \<times> real \<Rightarrow> real \<Rightarrow> real \<times> real \<times> real \<times> real" where
  "expand b d = (case b of (minx, miny, maxx, maxy) \<Rightarrow> (minx - d, miny - d, maxx + d, maxy + d))"

definition boxes_meet ::
  "real \<times> real \<times> real \<times> real \<Rightarrow> real \<times> real \<times> real \<times> real \<Rightarrow> bool" where
  "boxes_meet a b =
     (case a of (aminx, aminy, amaxx, amaxy) \<Rightarrow>
      case b of (bminx, bminy, bmaxx, bmaxy) \<Rightarrow>
        aminx \<le> bmaxx \<and> bminx \<le> amaxx \<and> aminy \<le> bmaxy \<and> bminy \<le> amaxy)"

definition box_of :: "real \<times> real \<times> real \<times> real \<Rightarrow> geometry" where
  "box_of b = (case b of (minx, miny, maxx, maxy) \<Rightarrow> box minx miny maxx maxy)"

definition bbox_geos :: geos where
  "bbox_geos =
     \<lparr>centroid = area_centroid,
      intersects = (\<lambda>a b. boxes_meet (bounds a) (bounds b)),
      buffer = (\<lambda>g d. box_of (expand (bounds g) d)),
      buffer_bounds = (\<lambda>g d. expand (bounds g) d),
      intersection = (\<lambda>a b. case bounds a of (aminx, aminy, amaxx, amaxy) \<Rightarrow>
                               case bounds b of (bminx, bminy, bmaxx, bmaxy) \<Rightarrow>
                                 box (max aminx bminx) (max aminy bminy) (min amaxx bmaxx) (min amaxy bmaxy)),
      clip_rank = (\<lambda>mask g. 0),
      sjoin_rank = (\<lambda>a b. 0),
      fl = (\<lambda>x. x),
      math_cos = cos,
      math_sin = sin,
      math_pi = pi\<rparr>"

subsection \<open>Binary64 arithmetic\<close>




subsection \<open>The cell graph\<close>

text \<open>
  A \<^verbatim>\<open>networkx.Graph\<close>: \<open>nodes\<close> is the dictionary from a node to its attribute (here the
  geometry), \<open>adj\<close> the dictionary from a node to the dictionary of its neighbours with the
  weight of the connecting edge.  The dictionaries keep insertion order: they are
  association lists, written with \<open>AList.update\<close> (replace in place or append).
\<close>

record graph =
  nodes :: "(int \<times> geometry) list"
  adj :: "(int \<times> (int \<times> real) list) list"

definition empty_graph :: graph where
  "empty_graph = \<lparr>nodes = [], adj = []\<rparr>"

text \<open>\<^verbatim>\<open>n in G.nodes\<close>\<close>

definition has_node :: "graph \<Rightarrow> int \<Rightarrow> bool" where
  "has_node G n = (map_of (nodes G) n \<noteq> None)"

text \<open>\<^verbatim>\<open>G.add_node(n, geometry=g)\<close>: a new node gets an empty neighbour dictionary.\<close>

definition add_node :: "int \<Rightarrow> geometry \<Rightarrow> graph \<Rightarrow> graph" where
  "add_node n g G =
     (if has_node G n then G\<lparr>nodes := AList.update n g (nodes G)\<rparr>
      else G\<lparr>nodes := AList.update n g (nodes G), adj := AList.update n [] (adj G)\<rparr>)"

definition neighbors :: "graph \<Rightarrow> int \<Rightarrow> (int \<times> real) list" where
  "neighbors G u = (case map_of (adj G) u of None \<Rightarrow> [] | Some nbrs \<Rightarrow> nbrs)"

text \<open>
  \<^verbatim>\<open>G.add_edge(u, v, weight=w)\<close> on two nodes of the graph (the program calls it only
  after checking that both are): the graph is undirected, the weight is stored under
  \<open>adj[u][v]\<close> and under \<open>adj[v][u]\<close>.
\<close>

definition add_edge :: "int \<Rightarrow> int \<Rightarrow> real \<Rightarrow> graph \<Rightarrow> graph" where
  "add_edge u v w G =
     (let G1 = G\<lparr>adj := AList.update u (AList.update v w (neighbors G u)) (adj G)\<rparr>
      in G1\<lparr>adj := AList.update v (AList.update u w (neighbors G1 v)) (adj G1)\<rparr>)"

text \<open>
  \<^verbatim>\<open>sjoin(grid, grid_expanded, how='inner', op='intersects')\<close>, reduced to the columns
  \<^verbatim>\<open>id_left\<close> and \<^verbatim>\<open>id_right\<close>: the pairs of a row of the grid and a row of the expanded grid
  whose geometries intersect, in the order of the spatial index.
\<close>

definition sjoin :: "geos \<Rightarrow> cell list \<Rightarrow> cell list \<Rightarrow> (int \<times> int) list" where
  "sjoin L left right =
     map (\<lambda>lr. (cell_id (fst lr), cell_id (snd lr)))
       (sort_key (\<lambda>lr. sjoin_rank L (geometry (fst lr)) (geometry (snd lr)))
          (concat (map (\<lambda>l. map (\<lambda>r. (l, r))
             (filter (\<lambda>r. intersects L (geometry l) (geometry r)) right)) left)))"

text \<open>
  \<^verbatim>\<open>joined.groupby('id_left')\<close>: the groups in the order of their keys, the rows of a group in
  the order in which the join has them.
\<close>

definition groupby_id_left :: "(int \<times> int) list \<Rightarrow> (int \<times> int list) list" where
  "groupby_id_left joined =
     map (\<lambda>k. (k, map snd (filter (\<lambda>lr. fst lr = k) joined))) (sort (remdups (map fst joined)))"

text \<open>The body of the inner loop of \<^verbatim>\<open>create_graph\<close>.\<close>

definition link :: "geos \<Rightarrow> int \<Rightarrow> int \<Rightarrow> graph \<Rightarrow> graph" where
  "link L cid neighbor_id G =
     (if cid \<noteq> neighbor_id \<and> has_node G neighbor_id then
        (case map_of (nodes G) cid of
           None \<Rightarrow> G
         | Some gu \<Rightarrow>
            (case map_of (nodes G) neighbor_id of
               None \<Rightarrow> G
             | Some gv \<Rightarrow> add_edge cid neighbor_id (distance (centroid L gu) (centroid L gv)) G))
      else G)"

text \<open>\<^verbatim>\<open>GraphGrid.create_graph\<close>\<close>

definition create_graph :: "geos \<Rightarrow> cell list \<Rightarrow> graph" where
  "create_graph L rows =
     (let G = fold (\<lambda>row G. if passable row then add_node (cell_id row) (geometry row) G else G)
                rows empty_graph;
          grid_expanded = map (\<lambda>c. c\<lparr>geometry := buffer L (geometry c) 1\<rparr>) rows;
          joined = sjoin L rows grid_expanded
      in fold (\<lambda>(cid, nbrs) G.
                 if has_node G cid then fold (link L cid) nbrs G else G)
           (groupby_id_left joined) G)"

text \<open>The attributes of a \<^verbatim>\<open>GraphGrid\<close> object and \<^verbatim>\<open>GraphGrid.__init__\<close>.\<close>

record graph_grid =
  gg_grid :: "cell list"
  graph :: graph
  start_id :: "int option"
  end_id :: "int option"
  path :: "int list option"

definition init_graph_grid :: "geos \<Rightarrow> cell list \<Rightarrow> graph_grid" where
  "init_graph_grid L rows =
     \<lparr>gg_grid = rows, graph = create_graph L rows, start_id = None, end_id = None, path = None\<rparr>"

subsection \<open>The path search\<close>

text \<open>
  \<^verbatim>\<open>networkx.astar_path(G, source, target, weight='weight')\<close> as \<^verbatim>\<open>find_path\<close> calls it: no
  heuristic is passed, so the heuristic is the constant \<open>0\<close>, and there is no cutoff.  An
  entry of the queue is \<open>(priority, counter, node, dist, parent)\<close>; \<open>enqueued\<close> maps a node
  to \<open>(cost, heuristic)\<close>, \<open>explored\<close> maps a node to its parent (\<open>None\<close> for the source).
\<close>

type_synonym entry = "real \<times> nat \<times> int \<times> real \<times> int option"

definition e_prio :: "entry \<Rightarrow> real" where "e_prio e = fst e"
definition e_node :: "entry \<Rightarrow> int" where "e_node e = fst (snd (snd e))"
definition e_dist :: "entry \<Rightarrow> real" where "e_dist e = fst (snd (snd (snd e)))"
definition e_parent :: "entry \<Rightarrow> int option" where "e_parent e = snd (snd (snd (snd e)))"

record astar_state =
  queue :: "entry list"
  enqueued :: "int \<rightharpoonup> real \<times> real"
  explored :: "int \<rightharpoonup> int option"
  counter :: nat

text \<open>
  The queue is a binary heap of tuples, compared by priority and then by the counter,
  which is different for every entry.  \<^verbatim>\<open>heappop\<close> removes the least entry.
\<close>

definition entry_less :: "entry \<Rightarrow> entry \<Rightarrow> bool" where
  "entry_less a b = (fst a < fst b \<or> (fst a = fst b \<and> fst (snd a) < fst (snd b)))"

definition heap_min :: "entry \<Rightarrow> entry list \<Rightarrow> entry" where
  "heap_min e es = fold (\<lambda>x m. if entry_less x m then x else m) es e"

text \<open>
  The walk back from the target along the parents:
  \<^verbatim>\<open>while node is not None: path.append(node); node = explored[node]\<close>.
\<close>

partial_function (option) build_path ::
  "(int \<rightharpoonup> int option) \<Rightarrow> int option \<Rightarrow> int list \<Rightarrow> (error + int list) option" where
  "build_path ex node p =
     (case node of
        None \<Rightarrow> Some (Inr p)
      | Some n \<Rightarrow>
         (case ex n of
            None \<Rightarrow> Some (Inl KeyError)
          | Some parent \<Rightarrow> build_path ex parent (p @ [n])))"

text \<open>\<^verbatim>\<open>enqueued[neighbor] = ncost, h\<close> and \<^verbatim>\<open>push(queue, (ncost + h, next(c), neighbor, ncost, curnode))\<close>\<close>

definition push :: "int \<Rightarrow> real \<Rightarrow> real \<Rightarrow> int \<Rightarrow> astar_state \<Rightarrow> astar_state" where
  "push neighbor ncost h curnode st =
     st\<lparr>queue := queue st @ [(ncost + h, counter st, neighbor, ncost, Some curnode)],
        enqueued := (enqueued st)(neighbor \<mapsto> (ncost, h)),
        counter := Suc (counter st)\<rparr>"

text \<open>The body of the loop over the neighbours of the current node.\<close>

definition relax :: "int \<Rightarrow> real \<Rightarrow> int \<times> real \<Rightarrow> astar_state \<Rightarrow> astar_state" where
  "relax curnode dist' nw st =
     (let ncost = dist' + snd nw in
      case enqueued st (fst nw) of
        Some qh \<Rightarrow> if fst qh \<le> ncost then st else push (fst nw) ncost (snd qh) curnode st
      | None \<Rightarrow> push (fst nw) ncost 0 curnode st)"

text \<open>
  One iteration of \<^verbatim>\<open>while queue:\<close>.  It either ends the search, with the reversed walk or
  with an exception, or it goes on with a new state.
\<close>

datatype 'a step = Return 'a | Continue astar_state

definition astar_step ::
  "graph \<Rightarrow> int \<Rightarrow> int \<Rightarrow> astar_state \<Rightarrow> (error + int list) option step" where
  "astar_step G source target st =
     (case queue st of
        [] \<Rightarrow> Return (Some (Inl (NetworkXNoPath source target)))
      | e # es \<Rightarrow>
         (let m = heap_min e es;
              curnode = e_node m; dist' = e_dist m; parent = e_parent m;
              st1 = st\<lparr>queue := remove1 m (queue st)\<rparr>
          in if curnode = target
             then Return (map_option (map_sum (\<lambda>err. err) rev)
                            (build_path (explored st1) parent [curnode]))
             else
               (case explored st1 curnode of
                  Some None \<Rightarrow> Continue st1
                | Some (Some par) \<Rightarrow>
                   (case enqueued st1 curnode of
                      None \<Rightarrow> Return (Some (Inl KeyError))
                    | Some qh \<Rightarrow>
                       if fst qh < dist' then Continue st1
                       else (case map_of (adj G) curnode of
                               None \<Rightarrow> Return (Some (Inl KeyError))
                             | Some nbrs \<Rightarrow>
                                Continue (fold (relax curnode dist') nbrs
                                  (st1\<lparr>explored := (explored st1)(curnode \<mapsto> parent)\<rparr>))))
                | None \<Rightarrow>
                   (case map_of (adj G) curnode of
                      None \<Rightarrow> Return (Some (Inl KeyError))
                    | Some nbrs \<Rightarrow>
                       Continue (fold (relax curnode dist') nbrs
                         (st1\<lparr>explored := (explored st1)(curnode \<mapsto> parent)\<rparr>))))))"

partial_function (option) astar_loop ::
  "graph \<Rightarrow> int \<Rightarrow> int \<Rightarrow> astar_state \<Rightarrow> (error + int list) option" where
  "astar_loop G source target st =
     (case astar_step G source target st of
        Return r \<Rightarrow> r
      | Continue st' \<Rightarrow> astar_loop G source target st')"

declare build_path.simps [code]
declare astar_loop.simps [code]

definition astar_path :: "graph \<Rightarrow> int \<Rightarrow> int \<Rightarrow> (error + int list) option" where
  "astar_path G source target =
     (if \<not> has_node G source \<or> \<not> has_node G target then Some (Inl NodeNotFound)
      else astar_loop G source target
             \<lparr>queue = [(0, 0, source, 0, None)], enqueued = Map.empty, explored = Map.empty,
              counter = 1\<rparr>)"

text \<open>
  \<^verbatim>\<open>GraphGrid.find_path\<close>: the result (a path or an exception) together with the object as
  the call leaves it; \<open>None\<close> stands for a search that does not return.
\<close>

definition find_path ::
  "graph_grid \<Rightarrow> int \<Rightarrow> int \<Rightarrow> ((error + int list) \<times> graph_grid) option" where
  "find_path gg s t =
     (if \<not> has_node (graph gg) s then Some (Inl (ValueError (StartNotInGraph s)), gg)
      else if \<not> has_node (graph gg) t then Some (Inl (ValueError (EndNotInGraph t)), gg)
      else
        (let gg1 = gg\<lparr>start_id := Some s, end_id := Some t\<rparr>
         in case astar_path (graph gg) s t of
              None \<Rightarrow> None
            | Some (Inl err) \<Rightarrow> Some (Inl err, gg1)
            | Some (Inr p) \<Rightarrow> Some (Inr p, gg1\<lparr>path := Some p\<rparr>)))"

text \<open>
  Paths of the graph: a non-empty list of nodes whose consecutive members are joined by
  an edge, its weight the sum of the weights of these edges.
\<close>

definition edge_weight :: "graph \<Rightarrow> int \<Rightarrow> int \<Rightarrow> real option" where
  "edge_weight G u v = map_of (neighbors G u) v"

fun is_path :: "graph \<Rightarrow> int list \<Rightarrow> bool" where
  "is_path G [] = False"
| "is_path G [v] = has_node G v"
| "is_path G (u # v # p) = (edge_weight G u v \<noteq> None \<and> is_path G (v # p))"

fun path_weight :: "graph \<Rightarrow> int list \<Rightarrow> real" where
  "path_weight G (u # v # p) =
     (case edge_weight G u v of None \<Rightarrow> 0 | Some w \<Rightarrow> w) + path_weight G (v # p)"
| "path_weight G _ = 0"

definition connects :: "graph \<Rightarrow> int \<Rightarrow> int \<Rightarrow> int list \<Rightarrow> bool" where
  "connects G s t p = (p \<noteq> [] \<and> hd p = s \<and> last p = t \<and> is_path G p)"

text \<open>
  A well-formed graph: the keys of each dictionary are distinct, the nodes are the keys of
  \<open>adj\<close>, every neighbour is a node, and no weight is negative.
\<close>

definition wf_graph :: "graph \<Rightarrow> bool" where
  "wf_graph G =
     (distinct (map fst (nodes G)) \<and> distinct (map fst (adj G))
      \<and> set (map fst (adj G)) = set (map fst (nodes G))
      \<and> list_all (\<lambda>un. distinct (map fst (snd un))
             \<and> list_all (\<lambda>vw. 0 \<le> snd vw \<and> has_node G (fst vw)) (snd un)) (adj G))"

subsection \<open>Invariants of the graph builder and of the search\<close>

text \<open>
  The predicates below are used in the proofs only.  \<open>chain ex (v # l)\<close> says that following
  the parents from \<open>v\<close> visits \<open>l\<close> and ends at the node without parent.  \<open>best_cost\<close> is the
  cost recorded for a node (\<open>0\<close> for the source).  \<open>core\<close> collects what holds of the queue, of
  \<open>enqueued\<close> and of \<open>explored\<close> between two iterations of the search, \<open>relaxed\<close> says which
  edges out of explored nodes have been looked at, and \<open>search_post\<close> is what the search
  promises for its result.  \<open>graph_ok\<close> and \<open>no_edges\<close> are the invariants of the two loops of
  \<^verbatim>\<open>create_graph\<close>.
\<close>

fun chain :: "(int \<rightharpoonup> int option) \<Rightarrow> int list \<Rightarrow> bool" where
  "chain ex [] = False"
| "chain ex [v] = (ex v = Some None)"
| "chain ex (v # u # l) = (ex v = Some (Some u) \<and> chain ex (u # l))"

definition best_cost :: "int \<Rightarrow> astar_state \<Rightarrow> int \<Rightarrow> real" where
  "best_cost s st v = (if v = s then 0 else case enqueued st v of None \<Rightarrow> 0 | Some qh \<Rightarrow> fst qh)"

definition entry_ok :: "graph \<Rightarrow> int \<Rightarrow> astar_state \<Rightarrow> entry \<Rightarrow> bool" where
  "entry_ok G s st e \<longleftrightarrow>
     e_prio e = e_dist e
     \<and> (\<exists>u w. e_parent e = Some u \<and> u \<in> dom (explored st) \<and> edge_weight G u (e_node e) = Some w
            \<and> e_dist e = best_cost s st u + w)
     \<and> (\<exists>q. enqueued st (e_node e) = Some (q, 0) \<and> q \<le> e_dist e)"

definition explored_ok :: "graph \<Rightarrow> int \<Rightarrow> astar_state \<Rightarrow> int \<Rightarrow> bool" where
  "explored_ok G s st v \<longleftrightarrow>
     has_node G v \<and> (\<exists>l. chain (explored st) (v # l))
     \<and> (v \<noteq> s \<longrightarrow> (\<exists>u w q. explored st v = Some (Some u) \<and> u \<in> dom (explored st)
            \<and> edge_weight G u v = Some w \<and> best_cost s st v = best_cost s st u + w
            \<and> enqueued st v = Some (q, 0)))"

definition pending_ok :: "graph \<Rightarrow> int \<Rightarrow> astar_state \<Rightarrow> bool" where
  "pending_ok G s st \<longleftrightarrow>
     (\<forall>v q h. enqueued st v = Some (q, h) \<longrightarrow>
        h = 0 \<and> has_node G v
        \<and> (v \<notin> dom (explored st) \<longrightarrow> v \<noteq> s \<longrightarrow> (\<exists>e \<in> set (queue st). e_node e = v \<and> e_dist e = q)))"

definition core :: "graph \<Rightarrow> int \<Rightarrow> int \<Rightarrow> astar_state \<Rightarrow> bool" where
  "core G s t st \<longleftrightarrow>
     explored st s = Some None \<and> t \<notin> dom (explored st)
     \<and> (\<forall>e \<in> set (queue st). entry_ok G s st e)
     \<and> (\<forall>v \<in> dom (explored st). explored_ok G s st v)
     \<and> (\<forall>v \<in> dom (explored st). \<forall>e \<in> set (queue st). best_cost s st v \<le> e_dist e)
     \<and> (\<forall>e \<in> set (queue st). e_node e \<in> dom (explored st) \<longrightarrow> e_node e \<noteq> s \<longrightarrow>
           best_cost s st (e_node e) < e_dist e)
     \<and> pending_ok G s st
     \<and> distinct (map (\<lambda>e. (e_node e, e_dist e)) (queue st))"

definition relaxed :: "graph \<Rightarrow> int \<Rightarrow> astar_state \<Rightarrow> int \<Rightarrow> (int \<times> real) list \<Rightarrow> bool" where
  "relaxed G s st u done \<longleftrightarrow>
     (\<forall>x \<in> dom (explored st). \<forall>vw \<in> set (if x = u then done else neighbors G x).
        fst vw \<noteq> s \<longrightarrow> (\<exists>q. enqueued st (fst vw) = Some (q, 0) \<and> q \<le> best_cost s st x + snd vw))"

definition astar_inv :: "graph \<Rightarrow> int \<Rightarrow> int \<Rightarrow> astar_state \<Rightarrow> bool" where
  "astar_inv G s t st \<longleftrightarrow> core G s t st \<and> relaxed G s st s (neighbors G s)"

definition search_post :: "graph \<Rightarrow> int \<Rightarrow> int \<Rightarrow> error + int list \<Rightarrow> bool" where
  "search_post G s t r \<longleftrightarrow>
     (case r of
        Inl e \<Rightarrow> e = NetworkXNoPath s t \<and> (\<forall>p. \<not> connects G s t p)
      | Inr p \<Rightarrow> connects G s t p \<and> (\<forall>q. connects G s t q \<longrightarrow> path_weight G p \<le> path_weight G q))"

definition graph_ok :: "geos \<Rightarrow> graph \<Rightarrow> bool" where
  "graph_ok L G \<longleftrightarrow>
     distinct (map fst (nodes G)) \<and> distinct (map fst (adj G))
     \<and> set (map fst (adj G)) = set (map fst (nodes G))
     \<and> (\<forall>u. distinct (map fst (neighbors G u)))
     \<and> (\<forall>u v w. edge_weight G u v = Some w \<longrightarrow>
           u \<noteq> v \<and> edge_weight G v u = Some w
           \<and> (\<exists>gu gv. map_of (nodes G) u = Some gu \<and> map_of (nodes G) v = Some gv
                  \<and> w = distance (centroid L gu) (centroid L gv)))"

definition no_edges :: "graph \<Rightarrow> bool" where
  "no_edges G \<longleftrightarrow>
     distinct (map fst (nodes G)) \<and> distinct (map fst (adj G))
     \<and> set (map fst (adj G)) = set (map fst (nodes G))
     \<and> (\<forall>u. neighbors G u = [])"

subsection \<open>Turning about a point\<close>

text \<open>
  The turn that the specification speaks of: \<open>turn angle origin p\<close> is the point \<open>p\<close> turned
  counter-clockwise by \<open>angle\<close> degrees about \<open>origin\<close>, in exact arithmetic.
\<close>

definition turn :: "real \<Rightarrow> point \<Rightarrow> point \<Rightarrow> point" where
  "turn angle origin p =
     (fst origin + cos (angle * pi / 180) * (fst p - fst origin)
                 - sin (angle * pi / 180) * (snd p - snd origin),
      snd origin + sin (angle * pi / 180) * (fst p - fst origin)
                 + cos (angle * pi / 180) * (snd p - snd origin))"

text \<open>
  The library computes in exact arithmetic; and an angle (in degrees) whose cosine and sine
  the library leaves as they are, because each is zero or not below the threshold.
\<close>

definition exact_arith :: "geos \<Rightarrow> bool" where
  "exact_arith L =
     (fl L = (\<lambda>x. x) \<and> math_cos L = cos \<and> math_sin L = sin \<and> math_pi L = pi)"

definition unclamped :: "real \<Rightarrow> bool" where
  "unclamped angle =
     ((cos (angle * pi / 180) = 0 \<or> 25 / 10 ^ 17 \<le> \<bar>cos (angle * pi / 180)\<bar>)
      \<and> (sin (angle * pi / 180) = 0 \<or> 25 / 10 ^ 17 \<le> \<bar>sin (angle * pi / 180)\<bar>))"

subsection \<open>Scenarios\<close>

text \<open>A geometry lies within a box \<open>(minx, miny, maxx, maxy)\<close> when all its coordinates do.\<close>

definition inside_box :: "geometry \<Rightarrow> real \<times> real \<times> real \<times> real \<Rightarrow> bool" where
  "inside_box g b =
     (case b of (minx, miny, maxx, maxy) \<Rightarrow>
        list_all (\<lambda>p. minx \<le> fst p \<and> fst p \<le> maxx \<and> miny \<le> snd p \<and> snd p \<le> maxy) (coords g))"

text \<open>
  The grid of a \<open>10 \<times> 10\<close> square boundary with cells of size \<open>20\<close>, turned by 180 degrees
  at construction.
\<close>

definition turned_grid :: vector_grid where
  "turned_grid =
     \<lparr>polygon = box 0 0 10 10, cell_size = 20, rotation = Some 180, obstacle = None,
      grid = [
        \<lparr>geometry = Polygon [(-3, 17), (-3, -3), (17, -3), (17, 17), (-3, 17)] [], passable = True, cell_id = 0\<rparr>,
        \<lparr>geometry = Polygon [(-3, -3), (-3, -23), (17, -23), (17, -3), (-3, -3)] [], passable = True, cell_id = 1\<rparr>,
        \<lparr>geometry = Polygon [(-23, 17), (-23, -3), (-3, -3), (-3, 17), (-23, 17)] [], passable = True, cell_id = 2\<rparr>,
        \<lparr>geometry = Polygon [(-23, -3), (-23, -23), (-3, -23), (-3, -3), (-23, -3)] [], passable = True, cell_id = 3\<rparr>]\<rparr>"

text \<open>
  The grid lines and the grid of the \<open>100 \<times> 100\<close> square boundary with cells of size \<open>25\<close>.
\<close>

definition xs10 :: "int list" where
  "xs10 = [- 70, - 45, - 20, 5, 30, 55, 80, 105, 130, 155]"

definition sgrid :: "cell list" where
  "sgrid = grid_frame bbox_geos (box 0 0 100 100) None None (grid_polys 25 xs10 xs10)"

definition square_vg :: vector_grid where
  "square_vg = \<lparr>polygon = box 0 0 100 100, cell_size = 25, rotation = None, obstacle = None, grid = sgrid\<rparr>"

text \<open>
  A corridor of five cells in a row, the fourth one impassable, and the graph that
  \<^verbatim>\<open>create_graph\<close> builds from it.
\<close>

definition corridor :: "cell list" where
  "corridor = [\<lparr>geometry = box 0 0 10 10, passable = True, cell_id = 0\<rparr>,
               \<lparr>geometry = box 10 0 20 10, passable = True, cell_id = 1\<rparr>,
               \<lparr>geometry = box 20 0 30 10, passable = True, cell_id = 2\<rparr>,
               \<lparr>geometry = box 30 0 40 10, passable = False, cell_id = 3\<rparr>,
               \<lparr>geometry = box 40 0 50 10, passable = True, cell_id = 4\<rparr>]"

definition corridor_nodes :: "(int \<times> geometry) list" where
  "corridor_nodes = [(0, box 0 0 10 10), (1, box 10 0 20 10), (2, box 20 0 30 10), (4, box 40 0 50 10)]"

definition corridor_graph :: graph where
  "corridor_graph =
     \<lparr>nodes = corridor_nodes,
      adj = [(0, [(1, 10)]), (1, [(0, 10), (2, 10)]), (2, [(1, 10)]), (4, [])]\<rparr>"

section \<open>Properties\<close>

subsection \<open>Ids after construction, clip and intersect\<close>

lemma map_cell_id_assign_ids: "map cell_id (assign_ids cs) = map int [0 ..< length cs]"
  by (rule nth_equalityI) (simp_all add: assign_ids_def)

lemma length_assign_ids: "length (assign_ids cs) = length cs"
  by (simp add: assign_ids_def)

lemma length_grid_frame: "length (grid_frame L poly rot obs polys) = length polys"
  by (simp add: grid_frame_def Let_def length_assign_ids split: option.splits)

lemma map_cell_id_grid_frame:
  "map cell_id (grid_frame L poly rot obs polys) = map int [0 ..< length polys]"
  by (simp add: grid_frame_def Let_def map_cell_id_assign_ids split: option.splits)

lemma create_vector_grid_ids:
  "create_vector_grid L poly cs rot obs = Inr g \<Longrightarrow> map cell_id g = map int [0 ..< length g]"
  unfolding create_vector_grid_def
  by (auto split: sum.splits prod.splits simp: map_cell_id_grid_frame length_grid_frame)

lemma distinct_map_int_upt: "distinct (map int [0 ..< n])"
  by (simp add: distinct_map)

text \<open>
  C9.  After grid construction (whenever it returns a grid), after \<open>clip\<close> and after
  \<open>intersect\<close>, the ids of the rows are \<open>0, 1, \<dots>, n - 1\<close> in row order, where \<open>n\<close> is the
  number of rows; so they are pairwise distinct and fill \<open>[0, n)\<close>.
\<close>

theorem ids_contiguous:
  "(create_vector_grid L poly cs rot obs = Inr g \<longrightarrow>
      map cell_id g = map int [0 ..< length g] \<and> distinct (map cell_id g))
   \<and> map cell_id (grid (clip L vg)) = map int [0 ..< length (grid (clip L vg))]
   \<and> distinct (map cell_id (grid (clip L vg)))
   \<and> map cell_id (grid (intersect L vg)) = map int [0 ..< length (grid (intersect L vg))]
   \<and> distinct (map cell_id (grid (intersect L vg)))"
proof -
  have a: "create_vector_grid L poly cs rot obs = Inr g \<longrightarrow>
      map cell_id g = map int [0 ..< length g] \<and> distinct (map cell_id g)"
    using create_vector_grid_ids [of L poly cs rot obs g] distinct_map_int_upt [of "length g"]
    by auto
  have b: "map cell_id (grid (clip L vg)) = map int [0 ..< length (grid (clip L vg))]"
    by (simp add: clip_def map_cell_id_assign_ids length_assign_ids)
  have c: "map cell_id (grid (intersect L vg)) = map int [0 ..< length (grid (intersect L vg))]"
    by (simp add: intersect_def map_cell_id_assign_ids length_assign_ids)
  show ?thesis
    using a b c distinct_map_int_upt by (simp del: map_map)
qed

subsection \<open>Rotation\<close>



lemma rotate_point_exact:
  assumes "exact_arith L" and "unclamped a"
  shows "rotate_point L a c p = turn a c p"
proof -
  have f: "fl L = (\<lambda>x. x)" "math_cos L = cos" "math_sin L = sin" "math_pi L = pi"
    using assms(1) by (simp_all add: exact_arith_def)
  have cc: "clamp L (cos (a * pi / 180)) = cos (a * pi / 180)"
    using assms(2) by (auto simp: clamp_def unclamped_def f)
  have cs: "clamp L (sin (a * pi / 180)) = sin (a * pi / 180)"
    using assms(2) by (auto simp: clamp_def unclamped_def f)
  show ?thesis
    unfolding rotate_point_def rotate_matrix_def affine_point_def Let_def f cc cs turn_def
    by (simp add: algebra_simps)
qed







lemma exact_bbox_geos: "exact_arith bbox_geos"
  by (simp add: exact_arith_def bbox_geos_def)

lemma unclamped_half_turn: "unclamped 180"
  by (simp add: unclamped_def)

lemma unclamped_quarter_turn: "unclamped 90"
  by (simp add: unclamped_def)

lemma map_geometry_grid_frame:
  "map geometry (grid_frame L poly rot obs polys)
     = (case rot of None \<Rightarrow> polys | Some r \<Rightarrow> map (rotate_geom L r (centroid L poly)) polys)"
  by (rule nth_equalityI) (simp_all add: grid_frame_def Let_def assign_ids_def split: option.splits)


subsection \<open>Nearest-cell lookup\<close>

lemma coord_less_irrefl: "\<not> coord_less p p"
  by (simp add: coord_less_def)

lemma coord_less_trans: "coord_less p q \<Longrightarrow> coord_less q r \<Longrightarrow> coord_less p r"
  by (auto simp: coord_less_def)

lemma coord_less_total: "p = q \<or> coord_less p q \<or> coord_less q p"
  by (auto simp: coord_less_def prod_eq_iff)

lemma set_insert_coord: "set (insert_coord p qs) = insert p (set qs)"
  by (induction qs) auto

lemma set_unary_union: "set (unary_union ps) = set ps"
  unfolding unary_union_def by (induction ps) (simp_all add: set_insert_coord)

lemma sorted_insert_coord:
  "sorted_wrt coord_less qs \<Longrightarrow> sorted_wrt coord_less (insert_coord p qs)"
proof (induction qs)
  case Nil
  then show ?case by simp
next
  case (Cons q qs)
  show ?case
  proof (cases "p = q")
    case True
    with Cons.prems show ?thesis by simp
  next
    case False
    show ?thesis
    proof (cases "coord_less p q")
      case True
      with Cons.prems False show ?thesis
        by (auto intro: coord_less_trans)
    next
      case nless: False
      with False coord_less_total [of p q] have "coord_less q p" by blast
      with Cons False nless show ?thesis
        by (auto simp: set_insert_coord)
    qed
  qed
qed

lemma sorted_unary_union: "sorted_wrt coord_less (unary_union ps)"
  unfolding unary_union_def by (induction ps) (simp_all add: sorted_insert_coord)

lemma fold_nearest:
  fixes p :: point
  assumes "sorted_wrt coord_less (b # qs)"
  shows "fold (\<lambda>x best. if distance p x < distance p best then x else best) qs b \<in> set (b # qs) \<and>
         (\<forall>x \<in> set (b # qs).
            distance p (fold (\<lambda>x best. if distance p x < distance p best then x else best) qs b)
              \<le> distance p x \<and>
            (distance p x
               = distance p (fold (\<lambda>x best. if distance p x < distance p best then x else best) qs b)
             \<longrightarrow> x = fold (\<lambda>x best. if distance p x < distance p best then x else best) qs b
               \<or> coord_less (fold (\<lambda>x best. if distance p x < distance p best then x else best) qs b) x))"
  using assms
proof (induction qs arbitrary: b)
  case Nil
  then show ?case by simp
next
  case (Cons q qs)
  define f where "f = (\<lambda>x best. if distance p x < distance p best then x else best)"
  show ?case
  proof (cases "distance p q < distance p b")
    case True
    define r where "r = fold f qs q"
    have s: "sorted_wrt coord_less (q # qs)" using Cons.prems by simp
    from Cons.IH [OF s] have
      m: "r \<in> set (q # qs)" and
      a: "\<forall>x \<in> set (q # qs). distance p r \<le> distance p x \<and>
            (distance p x = distance p r \<longrightarrow> x = r \<or> coord_less r x)"
      unfolding r_def f_def by blast+
    have e: "fold f (q # qs) b = r"
      using True by (simp add: r_def f_def)
    have lt: "distance p r < distance p b"
      using a True by fastforce
    have "r \<in> set (b # q # qs) \<and>
         (\<forall>x \<in> set (b # q # qs). distance p r \<le> distance p x \<and>
            (distance p x = distance p r \<longrightarrow> x = r \<or> coord_less r x))"
      using m a lt by auto
    then show ?thesis
      using e unfolding f_def by simp
  next
    case False
    define r where "r = fold f qs b"
    have s: "sorted_wrt coord_less (b # qs)" using Cons.prems by simp
    have bq: "coord_less b q" using Cons.prems by simp
    from Cons.IH [OF s] have
      m: "r \<in> set (b # qs)" and
      a: "\<forall>x \<in> set (b # qs). distance p r \<le> distance p x \<and>
            (distance p x = distance p r \<longrightarrow> x = r \<or> coord_less r x)"
      unfolding r_def f_def by blast+
    have e: "fold f (q # qs) b = r"
      using False by (simp add: r_def f_def)
    have rb: "r = b \<or> coord_less b r" using m s by auto
    have le: "distance p r \<le> distance p q" using a False by fastforce
    have tie: "q = r \<or> coord_less r q" if eq: "distance p q = distance p r"
    proof -
      from eq False a have "distance p b = distance p r" by fastforce
      with a have "b = r \<or> coord_less r b" by simp
      with rb have "r = b"
        using coord_less_trans [of b r b] coord_less_irrefl [of b] by blast
      with bq show ?thesis by simp
    qed
    have "r \<in> set (b # q # qs) \<and>
         (\<forall>x \<in> set (b # q # qs). distance p r \<le> distance p x \<and>
            (distance p x = distance p r \<longrightarrow> x = r \<or> coord_less r x))"
      using m a le tie by auto
    then show ?thesis
      using e unfolding f_def by simp
  qed
qed

lemma nearest_points_Inr:
  assumes "ps \<noteq> []"
  shows "\<exists>r \<in> set ps. nearest_points p (unary_union ps) = Inr r \<and>
           (\<forall>x \<in> set ps. distance p r \<le> distance p x \<and>
              (distance p x = distance p r \<longrightarrow> x = r \<or> coord_less r x))"
proof -
  from assms set_unary_union [of ps] obtain b qs where u: "unary_union ps = b # qs"
    by (cases "unary_union ps") auto
  have s: "sorted_wrt coord_less (b # qs)" using sorted_unary_union [of ps] u by simp
  define r where "r = fold (\<lambda>x best. if distance p x < distance p best then x else best) qs b"
  have n: "nearest_points p (unary_union ps) = Inr r"
    by (simp add: nearest_points_def u r_def)
  have st: "set ps = set (b # qs)"
    using set_unary_union [of ps] u by simp
  from fold_nearest [OF s, of p] show ?thesis
    unfolding r_def [symmetric] st [symmetric] using n by blast
qed


lemma filter_centroid_unique:
  assumes "distinct (map f xs)" and "c \<in> set xs"
  shows "filter (\<lambda>x. f x = f c) xs = [c]"
  using assms
proof (induction xs)
  case Nil
  then show ?case by simp
next
  case (Cons x xs)
  show ?case
  proof (cases "x = c")
    case True
    have "f c \<notin> f ` set xs"
      using Cons.prems(1) True by simp
    then have "\<forall>y \<in> set xs. f y \<noteq> f c"
      by (metis imageI)
    then have "filter (\<lambda>y. f y = f c) xs = []"
      by (simp add: filter_empty_conv)
    with True show ?thesis by simp
  next
    case False
    with Cons.prems have "c \<in> set xs" by simp
    moreover have "f x \<noteq> f c"
      using Cons.prems(1) \<open>c \<in> set xs\<close> by auto
    ultimately show ?thesis using Cons by simp
  qed
qed

lemma closest_cell_id_min:
  assumes d: "distinct (map (\<lambda>c. centroid L (geometry c)) (grid vg))"
    and ex: "list_ex passable (grid vg)"
  shows "\<exists>c \<in> set (grid vg). passable c \<and> closest_cell_id L vg pt = Inr (cell_id c) \<and>
           (\<forall>c' \<in> set (grid vg). passable c' \<longrightarrow>
              distance pt (centroid L (geometry c)) \<le> distance pt (centroid L (geometry c')) \<and>
              (distance pt (centroid L (geometry c')) = distance pt (centroid L (geometry c)) \<longrightarrow>
                 c' = c \<or> coord_less (centroid L (geometry c)) (centroid L (geometry c'))))"
proof -
  define cen where "cen = (\<lambda>c::cell. centroid L (geometry c))"
  define ps where "ps = map cen (filter passable (grid vg))"
  have ne: "ps \<noteq> []"
    using ex by (auto simp: ps_def list_ex_iff filter_empty_conv)
  from nearest_points_Inr [OF ne, of pt] obtain r where
    r: "r \<in> set ps" and n: "nearest_points pt (unary_union ps) = Inr r" and
    m: "\<forall>x \<in> set ps. distance pt r \<le> distance pt x \<and>
              (distance pt x = distance pt r \<longrightarrow> x = r \<or> coord_less r x)"
    by blast
  from r obtain c where c: "c \<in> set (grid vg)" "passable c" "cen c = r"
    by (auto simp: ps_def)
  have f: "filter (\<lambda>x. cen x = r) (grid vg) = [c]"
    using filter_centroid_unique [of cen "grid vg" c] d c by (simp add: cen_def)
  have res: "closest_cell_id L vg pt = Inr (cell_id c)"
    using n f by (simp add: closest_cell_id_def ps_def cen_def)
  have inj: "c' = c" if "c' \<in> set (grid vg)" "cen c' = cen c" for c'
    using d that c(1) by (metis (no_types, lifting) cen_def distinct_map inj_onD)
  have "\<forall>c' \<in> set (grid vg). passable c' \<longrightarrow>
              distance pt (cen c) \<le> distance pt (cen c') \<and>
              (distance pt (cen c') = distance pt (cen c) \<longrightarrow> c' = c \<or> coord_less (cen c) (cen c'))"
  proof (intro ballI impI)
    fix c' assume c': "c' \<in> set (grid vg)" "passable c'"
    then have "cen c' \<in> set ps" by (simp add: ps_def)
    with m c(3) inj [OF c'(1)] show "distance pt (cen c) \<le> distance pt (cen c') \<and>
              (distance pt (cen c') = distance pt (cen c) \<longrightarrow> c' = c \<or> coord_less (cen c) (cen c'))"
      by metis
  qed
  with c res show ?thesis unfolding cen_def by blast
qed

lemma distance_zero_iff: "distance p q = 0 \<longleftrightarrow> p = q"
  by (auto simp: distance_def prod_eq_iff)

lemma distance_nonneg: "0 \<le> distance p q"
  by (simp add: distance_def)

lemma closest_cell_id_centroid:
  assumes d: "distinct (map (\<lambda>c. centroid L (geometry c)) (grid vg))"
    and c: "c \<in> set (grid vg)" "passable c"
  shows "closest_cell_id L vg (centroid L (geometry c)) = Inr (cell_id c)"
proof -
  have ex: "list_ex passable (grid vg)" using c by (auto simp: list_ex_iff)
  from closest_cell_id_min [OF d ex, of "centroid L (geometry c)"] obtain c0 where
    c0: "c0 \<in> set (grid vg)" "closest_cell_id L vg (centroid L (geometry c)) = Inr (cell_id c0)" and
    m: "\<forall>c' \<in> set (grid vg). passable c' \<longrightarrow>
          distance (centroid L (geometry c)) (centroid L (geometry c0))
            \<le> distance (centroid L (geometry c)) (centroid L (geometry c'))"
    by blast
  from m c have "distance (centroid L (geometry c)) (centroid L (geometry c0)) \<le> 0"
    using distance_zero_iff [of "centroid L (geometry c)" "centroid L (geometry c)"] by fastforce
  with distance_nonneg [of "centroid L (geometry c)" "centroid L (geometry c0)"]
  have "centroid L (geometry c) = centroid L (geometry c0)"
    using distance_zero_iff [of "centroid L (geometry c)" "centroid L (geometry c0)"] by linarith
  with d c(1) c0(1) have "c0 = c"
    by (metis (no_types, lifting) distinct_map inj_onD)
  with c0(2) show ?thesis by simp
qed

lemma closest_cell_id_none:
  assumes "\<not> list_ex passable (grid vg)"
  shows "closest_cell_id L vg pt = Inl (ValueError SecondGeometryEmpty)"
proof -
  have "filter passable (grid vg) = []"
    using assms by (auto simp: list_ex_iff filter_empty_conv)
  then show ?thesis
    by (simp add: closest_cell_id_def unary_union_def nearest_points_def)
qed


subsection \<open>Truncation and ranges\<close>

lemma py_int_lower: "x - 1 < real_of_int (py_int x)"
  unfolding py_int_def by (auto; linarith)

lemma py_int_upper: "real_of_int (py_int x) < x + 1"
  unfolding py_int_def by (auto; linarith)

lemma py_int_floor: "0 \<le> x \<Longrightarrow> real_of_int (py_int x) \<le> x"
  unfolding py_int_def by simp

lemma py_int_mono: "x \<le> y \<Longrightarrow> py_int x \<le> py_int y"
proof -
  assume a: "x \<le> y"
  consider "0 \<le> x" | "y < 0" | "x < 0" "0 \<le> y" using a by linarith
  then show ?thesis
  proof cases
    case 1
    with a show ?thesis by (simp add: py_int_def floor_mono)
  next
    case 2
    with a show ?thesis by (simp add: py_int_def ceiling_mono)
  next
    case 3
    then have "\<lceil>x\<rceil> \<le> 0" "0 \<le> \<lfloor>y\<rfloor>" by (simp_all add: ceiling_le_iff)
    then have "\<lceil>x\<rceil> \<le> \<lfloor>y\<rfloor>" by linarith
    with 3 show ?thesis by (simp add: py_int_def)
  qed
qed

lemma py_range_pos:
  assumes "0 < step" and "py_range start stop step = Inr xs" and "v \<in> set xs"
  shows "start \<le> v \<and> v < stop"
proof -
  define a where "a = stop - start + step - 1"
  from assms obtain k where k: "k < nat (a div step)" "v = start + int k * step"
    by (auto simp: py_range_def a_def)
  then have "int k + 1 \<le> a div step" by linarith
  then have "(int k + 1) * step \<le> (a div step) * step"
    using assms(1) by (simp add: mult_right_mono)
  also have "\<dots> \<le> a"
    using div_mult_mod_eq [of a step] pos_mod_sign [OF assms(1), of a] by linarith
  finally have "int k * step < stop - start" by (simp add: algebra_simps a_def)
  moreover have "0 \<le> int k * step" using assms(1) by simp
  ultimately show ?thesis using k by simp
qed

lemma py_range_zero: "py_range start stop 0 = Inl (ValueError RangeStepZero)"
  by (simp add: py_range_def)

lemma py_range_neg: "step < 0 \<Longrightarrow> start \<le> stop \<Longrightarrow> py_range start stop step = Inr []"
proof -
  assume a: "step < 0" "start \<le> stop"
  define m where "m = - step"
  define n where "n = start - stop - step - 1"
  have m: "0 < m" using a by (simp add: m_def)
  have "n \<le> m - 1" using a by (simp add: m_def n_def)
  then have "n div m \<le> (m - 1) div m"
    using m by (rule zdiv_mono1)
  also have "(m - 1) div m = 0" using m by simp
  finally have "n div m \<le> 0" .
  then show ?thesis using a by (simp add: py_range_def m_def n_def)
qed

lemma py_range_Inr: "step \<noteq> 0 \<Longrightarrow> \<exists>xs. py_range start stop step = Inr xs"
  by (simp add: py_range_def)

subsection \<open>The turned grid\<close>

lemma sqrt50: "7 < sqrt 50" "sqrt 50 < 8"
  by (rule real_less_rsqrt, simp) (rule real_less_lsqrt, simp_all)

lemma py_int_neg_sqrt50: "py_int (- sqrt 50) = - 7"
  using sqrt50 unfolding py_int_def by (simp add: ceiling_eq_iff)

lemma py_int_sqrt50: "py_int (10 + sqrt 50) = 17"
  using sqrt50 unfolding py_int_def by (simp add: floor_eq_iff)

lemma turned_centroid: "centroid bbox_geos (box 0 0 10 10) = (5, 5)"
  by (simp add: bbox_geos_def box_def ring_centroid_def ring_area2_def)

lemma turned_buffer: "polygon_buffer bbox_geos (box 0 0 10 10) = Inr (sqrt 50)"
  unfolding polygon_buffer_def turned_centroid
  by (simp add: box_def py_max_def distance_def)

lemma turned_bounds:
  "buffer_bounds bbox_geos (box 0 0 10 10) (sqrt 50) = (- sqrt 50, - sqrt 50, 10 + sqrt 50, 10 + sqrt 50)"
  by (simp add: bbox_geos_def box_def bounds_def expand_def)

lemma turned_range: "py_range (- 7) 17 20 = Inr [- 7, 13]"
  by (simp add: py_range_def upt_conv_Cons)

lemma rot180: "rotate_point bbox_geos 180 (5, 5) (x, y) = (10 - x, 10 - y)"
  using rotate_point_exact [OF exact_bbox_geos unclamped_half_turn, of "(5, 5)" "(x, y)"]
  by (simp add: turn_def)

lemma turned_create:
  "create_vector_grid bbox_geos (box 0 0 10 10) 20 rot None
     = Inr (grid_frame bbox_geos (box 0 0 10 10) rot None (grid_polys 20 [- 7, 13] [- 7, 13]))"
  by (simp add: create_vector_grid_def turned_buffer turned_bounds
      py_int_neg_sqrt50 py_int_sqrt50 turned_range)

lemma turned_frame:
  "grid_frame bbox_geos (box 0 0 10 10) (Some 180) None (grid_polys 20 [- 7, 13] [- 7, 13])
     = grid turned_grid"
  unfolding grid_frame_def turned_centroid
  by (simp add: grid_polys_def rotate_geom_def rot180 box_def assign_ids_def turned_grid_def
      upt_conv_Cons)

lemma turned_init:
  "init_vector_grid bbox_geos (box 0 0 10 10) 20 (Some 180) None = Inr turned_grid"
  by (simp add: init_vector_grid_def turned_create turned_frame) (simp add: turned_grid_def)

lemma turned_cents: "map (\<lambda>c. centroid bbox_geos (geometry c)) (grid turned_grid) = [(7, 7), (7, - 13), (- 13, 7), (- 13, - 13)]"
  by (simp add: turned_grid_def bbox_geos_def ring_centroid_def ring_area2_def)

subsection \<open>The square scenario\<close>

lemma sqrt5000: "70 < sqrt 5000" "sqrt 5000 < 71"
  by (rule real_less_rsqrt, simp) (rule real_less_lsqrt, simp_all)

lemma py_int_neg_sqrt5000: "py_int (- sqrt 5000) = - 70"
  using sqrt5000 unfolding py_int_def by (simp add: ceiling_eq_iff)

lemma py_int_sqrt5000: "py_int (100 + sqrt 5000) = 170"
  using sqrt5000 unfolding py_int_def by (simp add: floor_eq_iff)

lemma square_centroid: "centroid bbox_geos (box 0 0 100 100) = (50, 50)"
  by (simp add: bbox_geos_def box_def ring_centroid_def ring_area2_def)

lemma square_buffer: "polygon_buffer bbox_geos (box 0 0 100 100) = Inr (sqrt 5000)"
  unfolding polygon_buffer_def square_centroid
  by (simp add: box_def py_max_def distance_def)

lemma square_bounds:
  "buffer_bounds bbox_geos (box 0 0 100 100) (sqrt 5000)
     = (- sqrt 5000, - sqrt 5000, 100 + sqrt 5000, 100 + sqrt 5000)"
  by (simp add: bbox_geos_def box_def bounds_def expand_def)

lemma square_range:
  "py_range (- 70) 170 25 = Inr xs10"
  by (simp add: py_range_def upt_conv_Cons xs10_def)

lemma square_create:
  "create_vector_grid bbox_geos (box 0 0 100 100) 25 rot None
     = Inr (grid_frame bbox_geos (box 0 0 100 100) rot None (grid_polys 25 xs10 xs10))"
  by (simp add: create_vector_grid_def square_buffer square_bounds
      py_int_neg_sqrt5000 py_int_sqrt5000 square_range)

lemma box_centroid:
  "minx < maxx \<Longrightarrow> miny < maxy \<Longrightarrow>
   centroid bbox_geos (box minx miny maxx maxy) = ((minx + maxx) / 2, (miny + maxy) / 2)"
proof -
  assume a: "minx < maxx" "miny < maxy"
  have e: "ring_area2 [(maxx, miny), (maxx, maxy), (minx, maxy), (minx, miny), (maxx, miny)]
          = 2 * ((maxx - minx) * (maxy - miny))"
    by (simp add: ring_area2_def algebra_simps)
  have nz: "(maxx - minx) * (maxy - miny) \<noteq> 0" using a by simp
  show ?thesis
    unfolding bbox_geos_def box_def
    apply (simp add: ring_centroid_def e del: mult_eq_0_iff)
    using nz apply (simp add: field_simps)
    done
qed


lemma closest_cell_id_strict:
  assumes c: "c \<in> set (grid vg)" "passable c"
    and ids: "distinct (map cell_id (grid vg))"
    and m: "list_all (\<lambda>c'. cell_id c' = cell_id c \<or>
              distance pt (centroid L (geometry c)) < distance pt (centroid L (geometry c'))) (grid vg)"
  shows "closest_cell_id L vg pt = Inr (cell_id c)"
proof -
  define cen where "cen = (\<lambda>c::cell. centroid L (geometry c))"
  define ps where "ps = map cen (filter passable (grid vg))"
  have same: "c' = c" if "c' \<in> set (grid vg)" "cell_id c' = cell_id c" for c'
    using ids that c(1) by (metis (no_types, lifting) distinct_map inj_onD)
  have far: "distance pt (cen c) < distance pt (cen c')" if "c' \<in> set (grid vg)" "c' \<noteq> c" for c'
    using m that same unfolding list_all_iff cen_def by blast
  have ne: "ps \<noteq> []"
    using c by (auto simp: ps_def filter_empty_conv)
  from nearest_points_Inr [OF ne, of pt] obtain r where
    r: "r \<in> set ps" and n: "nearest_points pt (unary_union ps) = Inr r" and
    le: "\<forall>x \<in> set ps. distance pt r \<le> distance pt x"
    by blast
  from r obtain c0 where c0: "c0 \<in> set (grid vg)" "cen c0 = r"
    by (auto simp: ps_def)
  have "cen c \<in> set ps" using c by (simp add: ps_def)
  with le c0 have "distance pt (cen c0) \<le> distance pt (cen c)" by simp
  with far [OF c0(1)] have "c0 = c" by fastforce
  with c0 have rc: "r = cen c" by simp
  have all: "\<forall>x \<in> set (filter (\<lambda>x. cen x = r) (grid vg)). x = c"
    using far rc by fastforce
  have "c \<in> set (filter (\<lambda>x. cen x = r) (grid vg))"
    using c(1) rc by simp
  with all obtain rest where "filter (\<lambda>x. cen x = r) (grid vg) = c # rest"
    by (cases "filter (\<lambda>x. cen x = r) (grid vg)") auto
  with n show ?thesis
    by (simp add: closest_cell_id_def ps_def cen_def)
qed

lemma sgrid33: "sgrid ! 33 = \<lparr>geometry = box 5 5 30 30, passable = True, cell_id = 33\<rparr>"
  by (simp add: sgrid_def grid_frame_def grid_polys_def assign_ids_def upt_conv_Cons xs10_def)

lemma sgrid_all: "list_all (\<lambda>c'. cell_id c' = 33 \<or>
              distance (12, 12) (35 / 2, 35 / 2) < distance (12, 12) (centroid bbox_geos (geometry c'))) sgrid"
  by (simp add: sgrid_def grid_frame_def grid_polys_def assign_ids_def upt_conv_Cons xs10_def box_centroid distance_def power2_eq_square)

lemma sgrid_passable: "list_all passable sgrid"
  by (simp add: sgrid_def grid_frame_def grid_polys_def assign_ids_def upt_conv_Cons xs10_def)


subsection \<open>Claims about the grid and the lookup\<close>

text \<open>
  C3 (as amended).  When the centroids of the cells of the grid are pairwise distinct and
  some cell is passable, \<open>closest_cell_id\<close> returns the id of a passable cell whose centroid
  is at minimum distance from the query point; among the passable cells at that distance it
  is the one whose centroid comes first in coordinate order (smaller \<open>x\<close>, then smaller \<open>y\<close>),
  which need not be the one of lowest id.  Querying the centroid of a passable cell returns
  the id of that cell.
\<close>

theorem closest_cell_id_nearest:
  assumes "distinct (map (\<lambda>c. centroid L (geometry c)) (grid vg))"
    and "list_ex passable (grid vg)"
  shows "(\<exists>c \<in> set (grid vg). passable c \<and> closest_cell_id L vg pt = Inr (cell_id c) \<and>
           (\<forall>c' \<in> set (grid vg). passable c' \<longrightarrow>
              distance pt (centroid L (geometry c)) \<le> distance pt (centroid L (geometry c')) \<and>
              (distance pt (centroid L (geometry c')) = distance pt (centroid L (geometry c)) \<longrightarrow>
                 c' = c \<or> coord_less (centroid L (geometry c)) (centroid L (geometry c')))))
         \<and> (\<forall>c \<in> set (grid vg). passable c \<longrightarrow>
               closest_cell_id L vg (centroid L (geometry c)) = Inr (cell_id c))"
  using closest_cell_id_min [OF assms] closest_cell_id_centroid [OF assms(1)] by blast

theorem closest_cell_id_nearest_witness:
  "distinct (map (\<lambda>c. centroid bbox_geos (geometry c)) (grid turned_grid))
   \<and> list_ex passable (grid turned_grid)
   \<and> closest_cell_id bbox_geos turned_grid (7, - 13) = Inr 1"
proof -
  have d: "distinct (map (\<lambda>c. centroid bbox_geos (geometry c)) (grid turned_grid))"
    by (simp add: turned_cents)
  have e: "list_ex passable (grid turned_grid)"
    by (simp add: turned_grid_def)
  have c: "grid turned_grid ! 1 \<in> set (grid turned_grid)" "passable (grid turned_grid ! 1)"
    "cell_id (grid turned_grid ! 1) = 1"
    "centroid bbox_geos (geometry (grid turned_grid ! 1)) = (7, - 13)"
    by (simp_all add: turned_grid_def bbox_geos_def ring_centroid_def ring_area2_def)
  from closest_cell_id_nearest [OF d e, of "(0, 0)"] c
  have "closest_cell_id bbox_geos turned_grid (7, - 13) = Inr 1"
    by (metis (no_types, lifting))
  with d e show ?thesis by simp
qed

theorem closest_cell_id_tie_counterexample:
  "init_vector_grid bbox_geos (box 0 0 10 10) 20 (Some 180) None = Inr turned_grid
   \<and> closest_cell_id bbox_geos turned_grid (7, - 3) = Inr 1
   \<and> passable (grid turned_grid ! 0) \<and> cell_id (grid turned_grid ! 0) = 0
   \<and> passable (grid turned_grid ! 1) \<and> cell_id (grid turned_grid ! 1) = 1
   \<and> distance (7, - 3) (centroid bbox_geos (geometry (grid turned_grid ! 0))) = 10
   \<and> distance (7, - 3) (centroid bbox_geos (geometry (grid turned_grid ! 1))) = 10
   \<and> list_all (\<lambda>c. 10 \<le> distance (7, - 3) (centroid bbox_geos (geometry c))) (grid turned_grid)"
proof -
  have "closest_cell_id bbox_geos turned_grid (7, - 3) = Inr 1"
    unfolding closest_cell_id_def Let_def
    by (simp add: turned_grid_def bbox_geos_def ring_centroid_def ring_area2_def unary_union_def
        coord_less_def nearest_points_def distance_def)
  moreover have "list_all (\<lambda>c. 10 \<le> distance (7, - 3) (centroid bbox_geos (geometry c))) (grid turned_grid)"
    by (simp add: turned_grid_def bbox_geos_def ring_centroid_def ring_area2_def distance_def
        real_le_rsqrt)
  moreover have "distance (7, - 3) (centroid bbox_geos (geometry (grid turned_grid ! 0))) = 10"
    "distance (7, - 3) (centroid bbox_geos (geometry (grid turned_grid ! 1))) = 10"
    by (simp_all add: turned_grid_def bbox_geos_def ring_centroid_def ring_area2_def distance_def)
  ultimately show ?thesis
    using turned_init by (simp add: turned_grid_def)
qed

lemma closest_cell_id_some:
  assumes "list_ex passable (grid vg)"
  shows "\<exists>c \<in> set (grid vg). closest_cell_id L vg pt = Inr (cell_id c)"
proof -
  define cen where "cen = (\<lambda>c::cell. centroid L (geometry c))"
  define ps where "ps = map cen (filter passable (grid vg))"
  have ne: "ps \<noteq> []"
    using assms by (auto simp: ps_def list_ex_iff filter_empty_conv)
  from nearest_points_Inr [OF ne, of pt] obtain r where
    r: "r \<in> set ps" and n: "nearest_points pt (unary_union ps) = Inr r"
    by blast
  from r obtain c where c: "c \<in> set (grid vg)" "cen c = r"
    by (auto simp: ps_def)
  then have "filter (\<lambda>x. cen x = r) (grid vg) \<noteq> []"
    by (auto simp: filter_empty_conv)
  then obtain c0 cs where f: "filter (\<lambda>x. cen x = r) (grid vg) = c0 # cs"
    by (cases "filter (\<lambda>x. cen x = r) (grid vg)") auto
  then have "c0 \<in> set (filter (\<lambda>x. cen x = r) (grid vg))" by simp
  then have m: "c0 \<in> set (grid vg)" by simp
  have "closest_cell_id L vg pt = Inr (cell_id c0)"
    using n f by (simp add: closest_cell_id_def ps_def cen_def)
  with m show ?thesis by blast
qed

text \<open>
  C6 (as amended).  \<open>closest_cell_id\<close> makes no check of its own and the program has no error
  type for a grid without passable cells.  On such a grid (empty, or all cells impassable)
  the lookup returns no id: the call of \<^verbatim>\<open>nearest_points\<close> raises the \<^verbatim>\<open>ValueError\<close> of the
  geometry library for an empty second geometry, whatever the query point, and nothing
  catches it.  This is the only failure of the lookup: as soon as one cell is passable it
  returns the id of a cell of the grid.
\<close>

theorem closest_cell_id_failure:
  "(closest_cell_id L vg pt = Inl (ValueError SecondGeometryEmpty) \<longleftrightarrow> \<not> list_ex passable (grid vg))
   \<and> (\<forall>e. closest_cell_id L vg pt = Inl e \<longrightarrow> e = ValueError SecondGeometryEmpty)
   \<and> (list_ex passable (grid vg) \<longrightarrow>
         (\<exists>c \<in> set (grid vg). closest_cell_id L vg pt = Inr (cell_id c)))"
proof -
  have a: "closest_cell_id L vg pt = Inl (ValueError SecondGeometryEmpty)"
    if "\<not> list_ex passable (grid vg)"
    using that by (rule closest_cell_id_none)
  have b: "\<exists>c \<in> set (grid vg). closest_cell_id L vg pt = Inr (cell_id c)"
    if "list_ex passable (grid vg)"
    using that by (rule closest_cell_id_some)
  have c1: "closest_cell_id L vg pt = Inl (ValueError SecondGeometryEmpty)
      \<longleftrightarrow> \<not> list_ex passable (grid vg)"
    using a b by (cases "list_ex passable (grid vg)") auto
  have c2: "\<forall>e. closest_cell_id L vg pt = Inl e \<longrightarrow> e = ValueError SecondGeometryEmpty"
    using a b by (cases "list_ex passable (grid vg)") auto
  show ?thesis
    using c1 c2 b by blast
qed

theorem closest_cell_id_failure_witness:
  "\<not> list_ex passable (grid (turned_grid\<lparr>grid := []\<rparr>))
   \<and> closest_cell_id bbox_geos (turned_grid\<lparr>grid := []\<rparr>) (7, - 3) = Inl (ValueError SecondGeometryEmpty)
   \<and> \<not> list_ex passable (grid (add_obstacle bbox_geos [box 0 0 10 10] (intersect bbox_geos turned_grid)))
   \<and> length (grid (add_obstacle bbox_geos [box 0 0 10 10] (intersect bbox_geos turned_grid))) = 1
   \<and> closest_cell_id bbox_geos (add_obstacle bbox_geos [box 0 0 10 10] (intersect bbox_geos turned_grid)) (7, - 3)
       = Inl (ValueError SecondGeometryEmpty)
   \<and> list_ex passable (grid turned_grid)
   \<and> (\<exists>c \<in> set (grid turned_grid). closest_cell_id bbox_geos turned_grid (7, - 3) = Inr (cell_id c))"
proof -
  have a: "\<not> list_ex passable (grid (turned_grid\<lparr>grid := []\<rparr>))" by simp
  have b: "\<not> list_ex passable (grid (add_obstacle bbox_geos [box 0 0 10 10] (intersect bbox_geos turned_grid)))"
    "length (grid (add_obstacle bbox_geos [box 0 0 10 10] (intersect bbox_geos turned_grid))) = 1"
    by (simp_all add: add_obstacle_def intersect_def turned_grid_def bbox_geos_def bounds_def
        boxes_meet_def obstacle_free_def box_def assign_ids_def)
  have c: "list_ex passable (grid turned_grid)"
    by (simp add: turned_grid_def)
  show ?thesis
    using closest_cell_id_failure [of bbox_geos "turned_grid\<lparr>grid := []\<rparr>" "(7, - 3)"]
      closest_cell_id_failure [of bbox_geos
        "add_obstacle bbox_geos [box 0 0 10 10] (intersect bbox_geos turned_grid)" "(7, - 3)"]
      closest_cell_id_failure [of bbox_geos turned_grid "(7, - 3)"]
      a b c
    by blast
qed

text \<open>
  The claim as written asks for an error \<^verbatim>\<open>NoPassableCells\<close>.  On the one-cell grid whose
  cell an obstacle covers, the lookup ends with the \<^verbatim>\<open>ValueError\<close> of the library; grid
  construction with cell size zero ends with a \<^verbatim>\<open>ValueError\<close> too, so the class of the
  exception does not tell a caller that the grid has no passable cell.
\<close>

theorem no_passable_cells_counterexample:
  "list_all (\<lambda>c. \<not> passable c) (grid (add_obstacle bbox_geos [box 0 0 10 10] (intersect bbox_geos turned_grid)))
   \<and> closest_cell_id bbox_geos (add_obstacle bbox_geos [box 0 0 10 10] (intersect bbox_geos turned_grid)) (7, - 3)
       = Inl (ValueError SecondGeometryEmpty)
   \<and> create_vector_grid bbox_geos (box 0 0 10 10) 0 None None = Inl (ValueError RangeStepZero)"
proof -
  have g: "grid (add_obstacle bbox_geos [box 0 0 10 10] (intersect bbox_geos turned_grid))
      = [\<lparr>geometry = Polygon [(-3, 17), (-3, -3), (17, -3), (17, 17), (-3, 17)] [],
          passable = False, cell_id = 0\<rparr>]"
    by (simp add: add_obstacle_def intersect_def turned_grid_def bbox_geos_def bounds_def
        boxes_meet_def obstacle_free_def box_def assign_ids_def)
  have l: "closest_cell_id bbox_geos (add_obstacle bbox_geos [box 0 0 10 10] (intersect bbox_geos turned_grid)) (7, - 3)
       = Inl (ValueError SecondGeometryEmpty)"
    by (simp add: closest_cell_id_def g unary_union_def nearest_points_def)
  have z: "create_vector_grid bbox_geos (box 0 0 10 10) 0 None None = Inl (ValueError RangeStepZero)"
    by (simp add: create_vector_grid_def turned_buffer turned_bounds py_range_def)
  show ?thesis
    using l z by (simp add: g)
qed

lemma polygon_buffer_Polygon:
  "polygon_buffer L (Polygon shell holes) =
     (if shell = [] then Inl (ValueError MaxEmptySequence)
      else Inr (fold max (map (\<lambda>coord. distance (centroid L (Polygon shell holes)) coord) (tl shell))
                  (distance (centroid L (Polygon shell holes)) (hd shell))))"
  by (cases shell) (simp_all add: polygon_buffer_def py_max_def)

text \<open>
  C4 (as amended).  For a polygon boundary, grid construction fails exactly when the
  exterior ring has no vertex (\<^verbatim>\<open>max\<close> of an empty sequence) or the cell size is zero
  (\<^verbatim>\<open>range\<close> with step zero); both failures are \<^verbatim>\<open>ValueError\<close>s.  In every other case a grid is
  returned, and for a negative cell size (with \<open>minx \<le> maxx\<close> for the expanded bounds) the
  returned grid is empty.
\<close>

theorem create_vector_grid_failure:
  "(create_vector_grid L (Polygon shell holes) cs rot obs = Inl (ValueError MaxEmptySequence)
      \<longleftrightarrow> shell = [])
   \<and> (create_vector_grid L (Polygon shell holes) cs rot obs = Inl (ValueError RangeStepZero)
      \<longleftrightarrow> shell \<noteq> [] \<and> cs = 0)
   \<and> ((\<exists>g. create_vector_grid L (Polygon shell holes) cs rot obs = Inr g)
      \<longleftrightarrow> shell \<noteq> [] \<and> cs \<noteq> 0)
   \<and> (\<forall>buf minx miny maxx maxy.
         polygon_buffer L (Polygon shell holes) = Inr buf \<longrightarrow>
         buffer_bounds L (Polygon shell holes) buf = (minx, miny, maxx, maxy) \<longrightarrow>
         minx \<le> maxx \<longrightarrow> cs < 0 \<longrightarrow>
         create_vector_grid L (Polygon shell holes) cs rot obs = Inr [])"
proof -
  let ?p = "Polygon shell holes"
  have empty: "create_vector_grid L ?p cs rot obs = Inl (ValueError MaxEmptySequence)" if "shell = []"
    using that by (simp add: create_vector_grid_def polygon_buffer_Polygon)
  have zero: "create_vector_grid L ?p cs rot obs = Inl (ValueError RangeStepZero)"
    if "shell \<noteq> []" "cs = 0"
    using that
    by (simp add: create_vector_grid_def polygon_buffer_Polygon py_range_zero split: prod.splits)
  have ok: "\<exists>g. create_vector_grid L ?p cs rot obs = Inr g" if "shell \<noteq> []" "cs \<noteq> 0"
    using that
    by (simp add: create_vector_grid_def polygon_buffer_Polygon py_range_def split: prod.splits)
  have neg: "create_vector_grid L ?p cs rot obs = Inr []"
    if b: "polygon_buffer L ?p = Inr buf" and bb: "buffer_bounds L ?p buf = (minx, miny, maxx, maxy)"
      and le: "minx \<le> maxx" and lt: "cs < 0" for buf minx miny maxx maxy
  proof -
    have x: "py_range (py_int minx) (py_int maxx) cs = Inr []"
      using le lt by (simp add: py_range_neg py_int_mono)
    obtain ys where y: "py_range (py_int miny) (py_int maxy) cs = Inr ys"
      using py_range_Inr [of cs] lt by auto
    show ?thesis
      using b bb x y
      by (simp add: create_vector_grid_def grid_polys_def grid_frame_def assign_ids_def
          split: option.splits)
  qed
  have c1: "create_vector_grid L ?p cs rot obs = Inl (ValueError MaxEmptySequence) \<longleftrightarrow> shell = []"
    using empty zero ok by (cases "shell = []"; cases "cs = 0") auto
  have c2: "create_vector_grid L ?p cs rot obs = Inl (ValueError RangeStepZero)
      \<longleftrightarrow> shell \<noteq> [] \<and> cs = 0"
    using empty zero ok by (cases "shell = []"; cases "cs = 0") auto
  have c3: "(\<exists>g. create_vector_grid L ?p cs rot obs = Inr g) \<longleftrightarrow> shell \<noteq> [] \<and> cs \<noteq> 0"
    using empty zero ok by (cases "shell = []"; cases "cs = 0") auto
  have c4: "\<forall>buf minx miny maxx maxy.
         polygon_buffer L ?p = Inr buf \<longrightarrow>
         buffer_bounds L ?p buf = (minx, miny, maxx, maxy) \<longrightarrow>
         minx \<le> maxx \<longrightarrow> cs < 0 \<longrightarrow>
         create_vector_grid L ?p cs rot obs = Inr []"
    using neg by blast
  show ?thesis
    using c1 c2 c3 c4 by (intro conjI)
qed

theorem create_vector_grid_failure_witness:
  "create_vector_grid bbox_geos (Polygon [] []) 25 None None = Inl (ValueError MaxEmptySequence)
   \<and> create_vector_grid bbox_geos (Polygon [(100, 0), (100, 100), (0, 100), (0, 0), (100, 0)] []) 0 None None
       = Inl (ValueError RangeStepZero)
   \<and> polygon_buffer bbox_geos (Polygon [(100, 0), (100, 100), (0, 100), (0, 0), (100, 0)] []) = Inr (sqrt 5000)
   \<and> buffer_bounds bbox_geos (Polygon [(100, 0), (100, 100), (0, 100), (0, 0), (100, 0)] []) (sqrt 5000)
       = (- sqrt 5000, - sqrt 5000, 100 + sqrt 5000, 100 + sqrt 5000)
   \<and> - sqrt 5000 \<le> 100 + sqrt 5000
   \<and> create_vector_grid bbox_geos (Polygon [(100, 0), (100, 100), (0, 100), (0, 0), (100, 0)] []) (- 25) None None
       = Inr []"
proof -
  let ?sq = "Polygon [(100, 0), (100, 100), (0, 100), (0, 0), (100, 0)] []"
  have b: "polygon_buffer bbox_geos ?sq = Inr (sqrt 5000)"
    using square_buffer by (simp add: box_def)
  have bb: "buffer_bounds bbox_geos ?sq (sqrt 5000)
       = (- sqrt 5000, - sqrt 5000, 100 + sqrt 5000, 100 + sqrt 5000)"
    using square_bounds by (simp add: box_def)
  have le: "- sqrt 5000 \<le> 100 + sqrt 5000"
    using sqrt5000 by simp
  show ?thesis
    using create_vector_grid_failure [of bbox_geos "[]" "[]" 25 None None]
      create_vector_grid_failure [of bbox_geos "[(100, 0), (100, 100), (0, 100), (0, 0), (100, 0)]" "[]" 0 None None]
      create_vector_grid_failure [of bbox_geos "[(100, 0), (100, 100), (0, 100), (0, 0), (100, 0)]" "[]" "- 25" None None]
      b bb le
    by simp
qed

theorem negative_cell_size_counterexample:
  "create_vector_grid bbox_geos (box 0 0 100 100) (- 1) None None = Inr []"
proof -
  have "py_range (- 70) 170 (- 1) = Inr []"
    by (simp add: py_range_def)
  then show ?thesis
    by (simp add: create_vector_grid_def square_buffer square_bounds py_int_neg_sqrt5000
        py_int_sqrt5000 grid_polys_def grid_frame_def assign_ids_def)
qed

lemma sgrid_length: "length sgrid = 100"
  by (simp add: sgrid_def length_grid_frame grid_polys_def xs10_def)

lemma sgrid_ids: "distinct (map cell_id sgrid)"
  by (simp add: sgrid_def map_cell_id_grid_frame distinct_map_int_upt del: map_map)

text \<open>
  C7 (as amended).  For the \<open>100 \<times> 100\<close> square boundary, cell size \<open>25\<close>, no rotation and no
  obstacles, the buffer is \<open>sqrt 5000\<close>, the grid lines start at \<open>- 70\<close> and the grid has
  \<open>10 \<times> 10 = 100\<close> cells, all passable.  The lookup at \<open>(12, 12)\<close> returns id \<open>33\<close>, the cell
  with bounding square \<open>[5, 30] \<times> [5, 30]\<close>; no cell of the grid is the square
  \<open>[0, 25] \<times> [0, 25]\<close>.
\<close>

theorem square_scenario:
  "init_vector_grid bbox_geos (box 0 0 100 100) 25 None None = Inr square_vg
   \<and> length (grid square_vg) = 100
   \<and> list_all passable (grid square_vg)
   \<and> closest_cell_id bbox_geos square_vg (12, 12) = Inr 33
   \<and> grid square_vg ! 33 = \<lparr>geometry = box 5 5 30 30, passable = True, cell_id = 33\<rparr>
   \<and> \<not> list_ex (\<lambda>c. geometry c = box 0 0 25 25) (grid square_vg)"
proof -
  have i: "init_vector_grid bbox_geos (box 0 0 100 100) 25 None None = Inr square_vg"
    by (simp add: init_vector_grid_def square_create square_vg_def sgrid_def)
  have g: "grid square_vg = sgrid" by (simp add: square_vg_def)
  have m: "sgrid ! 33 \<in> set sgrid" using sgrid_length by simp
  have c: "centroid bbox_geos (geometry (sgrid ! 33)) = (35 / 2, 35 / 2)"
    by (simp add: sgrid33 box_centroid)
  have a: "list_all (\<lambda>c'. cell_id c' = cell_id (sgrid ! 33) \<or>
              distance (12, 12) (centroid bbox_geos (geometry (sgrid ! 33)))
                < distance (12, 12) (centroid bbox_geos (geometry c'))) (grid square_vg)"
    unfolding c g using sgrid_all by (simp add: sgrid33)
  have p: "passable (sgrid ! 33)" by (simp add: sgrid33)
  have l: "closest_cell_id bbox_geos square_vg (12, 12) = Inr (cell_id (sgrid ! 33))"
    using closest_cell_id_strict [where c = "sgrid ! 33" and vg = square_vg and L = bbox_geos
        and pt = "(12, 12)"] m p sgrid_ids a
    by (simp only: g)
  have n: "\<not> list_ex (\<lambda>c. geometry c = box 0 0 25 25) sgrid"
    by (simp add: sgrid_def grid_frame_def grid_polys_def assign_ids_def upt_conv_Cons xs10_def box_def)
  show ?thesis
    using i l n sgrid_length sgrid_passable sgrid33 by (simp add: g)
qed

theorem square_scenario_counterexample:
  "map_sum (\<lambda>e. e) length (create_vector_grid bbox_geos (box 0 0 100 100) 25 None None) = Inr 100"
  by (simp add: square_create length_grid_frame grid_polys_def xs10_def)

lemma inside_box_box:
  "inside_box (box x0 y0 x1 y1) (minx, miny, maxx, maxy)
     \<longleftrightarrow> minx \<le> x0 \<and> x0 \<le> maxx \<and> minx \<le> x1 \<and> x1 \<le> maxx
       \<and> miny \<le> y0 \<and> y0 \<le> maxy \<and> miny \<le> y1 \<and> y1 \<le> maxy"
  by (auto simp: inside_box_def box_def)

lemma py_int_stop: "v < py_int x \<Longrightarrow> real_of_int v < x"
proof -
  assume "v < py_int x"
  then have "real_of_int v + 1 \<le> real_of_int (py_int x)"
    by (metis of_int_1 of_int_add of_int_le_iff zless_imp_add1_zle)
  with py_int_upper [of x] show ?thesis by linarith
qed

text \<open>
  C8 (as amended).  With a positive cell size, every cell is a full square of side
  \<open>cell_size\<close>, turned about the centroid of the boundary by the rotation of the grid when one
  is given.  The lower left corner \<open>(x, y)\<close> of the square has integer coordinates with
  \<open>minx - 1 < x < maxx\<close> and \<open>miny - 1 < y < maxy\<close>, where \<open>(minx, miny, maxx, maxy)\<close> is the
  bounding box of the boundary expanded by the buffer.  So the square lies within the box
  widened by \<open>1\<close> at the near edges and by \<open>cell_size\<close> at the far edges; no cell is truncated.
\<close>

theorem cells_near_bounds:
  assumes cs: "0 < cs"
    and buf: "polygon_buffer L poly = Inr buf"
    and bb: "buffer_bounds L poly buf = (minx, miny, maxx, maxy)"
    and g: "create_vector_grid L poly cs rot obs = Inr g"
    and c: "c \<in> set g"
  shows "\<exists>x y. geometry c =
             (case rot of
                None \<Rightarrow> box (real_of_int x) (real_of_int y) (real_of_int (x + cs)) (real_of_int (y + cs))
              | Some r \<Rightarrow> rotate_geom L r (centroid L poly)
                  (box (real_of_int x) (real_of_int y) (real_of_int (x + cs)) (real_of_int (y + cs))))
           \<and> minx - 1 < real_of_int x \<and> real_of_int x < maxx
           \<and> miny - 1 < real_of_int y \<and> real_of_int y < maxy
           \<and> inside_box (box (real_of_int x) (real_of_int y) (real_of_int (x + cs)) (real_of_int (y + cs)))
                (minx - 1, miny - 1, maxx + real_of_int cs, maxy + real_of_int cs)"
proof -
  obtain xs where xs: "py_range (py_int minx) (py_int maxx) cs = Inr xs"
    using py_range_Inr [of cs] cs by auto
  obtain ys where ys: "py_range (py_int miny) (py_int maxy) cs = Inr ys"
    using py_range_Inr [of cs] cs by auto
  have "g = grid_frame L poly rot obs (grid_polys cs xs ys)"
    using g buf bb xs ys by (simp add: create_vector_grid_def)
  with c have "geometry c \<in> set (map geometry (grid_frame L poly rot obs (grid_polys cs xs ys)))"
    by simp
  then have "\<exists>b \<in> set (grid_polys cs xs ys).
      geometry c = (case rot of None \<Rightarrow> b | Some r \<Rightarrow> rotate_geom L r (centroid L poly) b)"
    unfolding map_geometry_grid_frame by (cases rot) auto
  then obtain b where b: "b \<in> set (grid_polys cs xs ys)"
    "geometry c = (case rot of None \<Rightarrow> b | Some r \<Rightarrow> rotate_geom L r (centroid L poly) b)"
    by blast
  from b(1) obtain x y where xy: "x \<in> set xs" "y \<in> set ys"
    "b = box (real_of_int x) (real_of_int y) (real_of_int (x + cs)) (real_of_int (y + cs))"
    by (auto simp: grid_polys_def)
  from py_range_pos [OF cs xs xy(1)] have x: "py_int minx \<le> x" "x < py_int maxx" by simp_all
  from py_range_pos [OF cs ys xy(2)] have y: "py_int miny \<le> y" "y < py_int maxy" by simp_all
  have xl: "minx - 1 < real_of_int x"
    using py_int_lower [of minx] x(1) by (smt (verit) of_int_le_iff)
  have xu: "real_of_int x < maxx" using x(2) by (rule py_int_stop)
  have yl: "miny - 1 < real_of_int y"
    using py_int_lower [of miny] y(1) by (smt (verit) of_int_le_iff)
  have yu: "real_of_int y < maxy" using y(2) by (rule py_int_stop)
  have "inside_box b (minx - 1, miny - 1, maxx + real_of_int cs, maxy + real_of_int cs)"
    unfolding xy(3) inside_box_box using xl xu yl yu cs by simp
  with b(2) xl xu yl yu show ?thesis unfolding xy(3) by blast
qed

lemma sgrid99: "sgrid ! 99 = \<lparr>geometry = box 155 155 180 180, passable = True, cell_id = 99\<rparr>"
  by (simp add: sgrid_def grid_frame_def grid_polys_def assign_ids_def upt_conv_Cons xs10_def)

theorem cell_past_bounds_counterexample:
  "polygon_buffer bbox_geos (box 0 0 100 100) = Inr (sqrt 5000)
   \<and> create_vector_grid bbox_geos (box 0 0 100 100) 25 None None = Inr sgrid
   \<and> geometry (sgrid ! 99) = box 155 155 180 180
   \<and> \<not> inside_box (geometry (sgrid ! 99)) (buffer_bounds bbox_geos (box 0 0 100 100) (sqrt 5000))"
proof -
  have "\<not> inside_box (box 155 155 180 180) (- sqrt 5000, - sqrt 5000, 100 + sqrt 5000, 100 + sqrt 5000)"
    unfolding inside_box_box using sqrt5000 by simp
  then show ?thesis
    by (simp add: square_buffer square_create sgrid_def [symmetric] sgrid99 square_bounds)
qed

theorem cells_near_bounds_witness:
  "(0::int) < 25
   \<and> polygon_buffer bbox_geos (box 0 0 100 100) = Inr (sqrt 5000)
   \<and> buffer_bounds bbox_geos (box 0 0 100 100) (sqrt 5000)
       = (- sqrt 5000, - sqrt 5000, 100 + sqrt 5000, 100 + sqrt 5000)
   \<and> create_vector_grid bbox_geos (box 0 0 100 100) 25 None None = Inr sgrid
   \<and> sgrid ! 99 \<in> set sgrid
   \<and> (\<exists>x y. geometry (sgrid ! 99)
            = box (real_of_int x) (real_of_int y) (real_of_int (x + 25)) (real_of_int (y + 25))
          \<and> inside_box (box (real_of_int x) (real_of_int y) (real_of_int (x + 25)) (real_of_int (y + 25)))
               (- sqrt 5000 - 1, - sqrt 5000 - 1, 100 + sqrt 5000 + 25, 100 + sqrt 5000 + 25))
   \<and> (0::int) < 20
   \<and> polygon_buffer bbox_geos (box 0 0 10 10) = Inr (sqrt 50)
   \<and> buffer_bounds bbox_geos (box 0 0 10 10) (sqrt 50)
       = (- sqrt 50, - sqrt 50, 10 + sqrt 50, 10 + sqrt 50)
   \<and> create_vector_grid bbox_geos (box 0 0 10 10) 20 (Some 180) None = Inr (grid turned_grid)
   \<and> grid turned_grid ! 3 \<in> set (grid turned_grid)
   \<and> (\<exists>x y. geometry (grid turned_grid ! 3)
            = rotate_geom bbox_geos 180 (centroid bbox_geos (box 0 0 10 10))
                (box (real_of_int x) (real_of_int y) (real_of_int (x + 20)) (real_of_int (y + 20)))
          \<and> inside_box (box (real_of_int x) (real_of_int y) (real_of_int (x + 20)) (real_of_int (y + 20)))
               (- sqrt 50 - 1, - sqrt 50 - 1, 10 + sqrt 50 + 20, 10 + sqrt 50 + 20))"
proof -
  have g: "create_vector_grid bbox_geos (box 0 0 100 100) 25 None None = Inr sgrid"
    by (simp add: square_create sgrid_def)
  have m: "sgrid ! 99 \<in> set sgrid"
    by (rule nth_mem) (simp add: sgrid_def length_grid_frame grid_polys_def xs10_def)
  have z: "(0::int) < 25" by simp
  from cells_near_bounds [OF z square_buffer square_bounds g m]
  have s: "\<exists>x y. geometry (sgrid ! 99)
            = box (real_of_int x) (real_of_int y) (real_of_int (x + 25)) (real_of_int (y + 25))
          \<and> inside_box (box (real_of_int x) (real_of_int y) (real_of_int (x + 25)) (real_of_int (y + 25)))
               (- sqrt 5000 - 1, - sqrt 5000 - 1, 100 + sqrt 5000 + 25, 100 + sqrt 5000 + 25)"
    by (simp only: option.case of_int_numeral) blast
  have g': "create_vector_grid bbox_geos (box 0 0 10 10) 20 (Some 180) None = Inr (grid turned_grid)"
    by (simp add: turned_create turned_frame)
  have m': "grid turned_grid ! 3 \<in> set (grid turned_grid)"
    by (rule nth_mem) (simp add: turned_grid_def)
  have z': "(0::int) < 20" by simp
  from cells_near_bounds [OF z' turned_buffer turned_bounds g' m']
  have t: "\<exists>x y. geometry (grid turned_grid ! 3)
            = rotate_geom bbox_geos 180 (centroid bbox_geos (box 0 0 10 10))
                (box (real_of_int x) (real_of_int y) (real_of_int (x + 20)) (real_of_int (y + 20)))
          \<and> inside_box (box (real_of_int x) (real_of_int y) (real_of_int (x + 20)) (real_of_int (y + 20)))
               (- sqrt 50 - 1, - sqrt 50 - 1, 10 + sqrt 50 + 20, 10 + sqrt 50 + 20)"
    by (simp only: option.case of_int_numeral) blast
  show ?thesis
    using g m s g' m' t by (simp add: square_buffer square_bounds turned_buffer turned_bounds)
qed

theorem ids_contiguous_witness:
  "create_vector_grid bbox_geos (box 0 0 10 10) 20 (Some 180) None = Inr (grid turned_grid)
   \<and> map cell_id (grid turned_grid) = [0, 1, 2, 3]
   \<and> map cell_id (grid (intersect bbox_geos turned_grid)) = [0]
   \<and> map cell_id (grid (clip bbox_geos turned_grid)) = [0]"
proof -
  have c: "create_vector_grid bbox_geos (box 0 0 10 10) 20 (Some 180) None = Inr (grid turned_grid)"
    by (simp add: turned_create turned_frame)
  have l: "length (grid turned_grid) = 4" "length (grid (intersect bbox_geos turned_grid)) = 1"
    "length (grid (clip bbox_geos turned_grid)) = 1"
    by (simp_all add: turned_grid_def intersect_def clip_def bbox_geos_def bounds_def
        boxes_meet_def box_def assign_ids_def)
  show ?thesis
    using ids_contiguous [of bbox_geos "box 0 0 10 10" 20 "Some 180" None "grid turned_grid" turned_grid] c
    by (simp add: l upt_conv_Cons del: map_map)
qed

subsection \<open>Rounding to binary64\<close>





























































subsection \<open>Claims about the rotation\<close>











subsection \<open>Well-formed graphs and paths\<close>

lemma has_node_iff_adj: "wf_graph G \<Longrightarrow> has_node G v \<longleftrightarrow> map_of (adj G) v \<noteq> None"
proof -
  assume "wf_graph G"
  then have "set (map fst (adj G)) = set (map fst (nodes G))" by (simp add: wf_graph_def)
  then have "v \<in> fst ` set (adj G) \<longleftrightarrow> v \<in> fst ` set (nodes G)" by simp
  then show ?thesis
    by (simp add: has_node_def map_of_eq_None_iff)
qed

lemma neighbors_mem:
  "(v, w) \<in> set (neighbors G u) \<Longrightarrow> \<exists>nbrs. (u, nbrs) \<in> set (adj G) \<and> (v, w) \<in> set nbrs"
proof (cases "map_of (adj G) u")
  case None
  assume "(v, w) \<in> set (neighbors G u)"
  with None show ?thesis by (simp add: neighbors_def)
next
  case (Some nbrs)
  assume "(v, w) \<in> set (neighbors G u)"
  with Some have "(v, w) \<in> set nbrs" by (simp add: neighbors_def)
  moreover from Some have "(u, nbrs) \<in> set (adj G)" by (rule map_of_SomeD)
  ultimately show ?thesis by blast
qed

lemma wf_neighbor:
  assumes "wf_graph G" and "(v, w) \<in> set (neighbors G u)"
  shows "0 \<le> w" and "has_node G v" and "has_node G u"
proof -
  from neighbors_mem [OF assms(2)] obtain nbrs where
    n: "(u, nbrs) \<in> set (adj G)" "(v, w) \<in> set nbrs" by blast
  from assms(1) n show "0 \<le> w" "has_node G v"
    unfolding wf_graph_def list_all_iff by fastforce+
  from n(1) have "map_of (adj G) u \<noteq> None"
    by (metis (no_types, lifting) fst_conv image_eqI map_of_eq_None_iff)
  with assms(1) show "has_node G u" by (simp add: has_node_iff_adj)
qed

lemma wf_distinct_neighbors: "wf_graph G \<Longrightarrow> distinct (map fst (neighbors G u))"
proof -
  assume wf: "wf_graph G"
  show ?thesis
  proof (cases "map_of (adj G) u")
    case None
    then show ?thesis by (simp add: neighbors_def)
  next
    case (Some nbrs)
    then have "(u, nbrs) \<in> set (adj G)" by (rule map_of_SomeD)
    with wf have "distinct (map fst nbrs)"
      unfolding wf_graph_def list_all_iff by fastforce
    with Some show ?thesis by (simp add: neighbors_def)
  qed
qed

lemma edge_weight_iff:
  "wf_graph G \<Longrightarrow> edge_weight G u v = Some w \<longleftrightarrow> (v, w) \<in> set (neighbors G u)"
  unfolding edge_weight_def using wf_distinct_neighbors [of G u] by simp

lemma edge_has_nodes:
  assumes "wf_graph G" and "edge_weight G u v \<noteq> None"
  shows "has_node G u" and "has_node G v"
proof -
  from assms(2) obtain w where "edge_weight G u v = Some w" by blast
  with assms(1) have "(v, w) \<in> set (neighbors G u)" by (simp add: edge_weight_iff)
  with assms(1) show "has_node G u" "has_node G v"
    using wf_neighbor by blast+
qed

lemma is_path_snoc:
  assumes "wf_graph G" and "p \<noteq> []"
  shows "is_path G (p @ [y]) \<longleftrightarrow> is_path G p \<and> edge_weight G (last p) y \<noteq> None"
  using assms
proof (induction G p rule: is_path.induct)
  case (1 G)
  then show ?case by simp
next
  case (2 G v)
  then show ?case by (metis append_Cons append_Nil edge_has_nodes is_path.simps(2,3) last.simps)
next
  case (3 G u v p)
  then show ?case by auto
qed

lemma path_weight_snoc:
  "p \<noteq> [] \<Longrightarrow> path_weight G (p @ [y])
     = path_weight G p + (case edge_weight G (last p) y of None \<Rightarrow> 0 | Some w \<Rightarrow> w)"
  by (induction G p rule: path_weight.induct) simp_all

lemma hd_snoc: "p \<noteq> [] \<Longrightarrow> hd (p @ [y]) = hd p"
  by simp

subsection \<open>The least entry of the queue\<close>

lemma heap_min_mem: "heap_min e es \<in> set (e # es)"
  unfolding heap_min_def
proof (induction es arbitrary: e)
  case Nil
  show ?case by simp
next
  case (Cons a es)
  define b where "b = (if entry_less a e then a else e)"
  have "fold (\<lambda>x m. if entry_less x m then x else m) es b \<in> set (b # es)"
    by (rule Cons.IH)
  moreover have "b = a \<or> b = e" by (simp add: b_def)
  ultimately show ?case
    unfolding fold_simps b_def [symmetric] by auto
qed

lemma heap_min_le: "x \<in> set (e # es) \<Longrightarrow> e_prio (heap_min e es) \<le> e_prio x"
  unfolding heap_min_def
proof (induction es arbitrary: e x)
  case Nil
  then show ?case by simp
next
  case (Cons a es)
  define f where "f = (\<lambda>x m. if entry_less x m then x else m)"
  have IH: "e_prio (fold f es b) \<le> e_prio y" if "y \<in> set (b # es)" for b y
    using Cons.IH [OF that] by (simp add: f_def)
  define b where "b = f a e"
  have b: "e_prio b \<le> e_prio a" "e_prio b \<le> e_prio e"
    by (auto simp: b_def f_def entry_less_def e_prio_def)
  from Cons.prems consider "x = e" | "x = a" | "x \<in> set es" by auto
  then have "e_prio (fold f es b) \<le> e_prio x"
  proof cases
    case 1
    with b IH [of b b] show ?thesis by simp
  next
    case 2
    with b IH [of b b] show ?thesis by simp
  next
    case 3
    with IH [of x b] show ?thesis by simp
  qed
  then show ?case
    by (simp add: f_def b_def)
qed

subsection \<open>The walk along the parents\<close>

lemma build_path_chain:
  "chain ex (v # l) \<Longrightarrow> build_path ex (Some v) p = Some (Inr (p @ v # l))"
proof (induction l arbitrary: v p)
  case Nil
  then show ?case
    by (subst build_path.simps) (simp add: build_path.simps)
next
  case (Cons u l)
  then have "build_path ex (Some u) (p @ [v]) = Some (Inr ((p @ [v]) @ u # l))"
    by simp
  with Cons.prems show ?case
    by (subst build_path.simps) simp
qed

lemma chain_dom: "chain ex l \<Longrightarrow> set l \<subseteq> dom ex"
  by (induction ex l rule: chain.induct) auto

lemma chain_upd: "chain ex l \<Longrightarrow> u \<notin> dom ex \<Longrightarrow> chain (ex(u \<mapsto> par)) l"
  by (induction ex l rule: chain.induct) auto

lemma entry_simps [simp]:
  "e_prio (p, c, v, d, par) = p" "e_node (p, c, v, d, par) = v"
  "e_dist (p, c, v, d, par) = d" "e_parent (p, c, v, d, par) = par"
  by (simp_all add: e_prio_def e_node_def e_dist_def e_parent_def)

lemma push_simps [simp]:
  "queue (push v c h u st) = queue st @ [(c + h, counter st, v, c, Some u)]"
  "enqueued (push v c h u st) = (enqueued st)(v \<mapsto> (c, h))"
  "explored (push v c h u st) = explored st"
  by (simp_all add: push_def)

lemma push_preserves:
  assumes wf: "wf_graph G" and c: "core G s t st" and cl: "relaxed G s st u done"
    and u: "u \<in> dom (explored st)" and d: "best_cost s st u = d"
    and b: "\<forall>x \<in> dom (explored st). best_cost s st x \<le> d"
    and e: "(v, w) \<in> set (neighbors G u)"
    and n: "enqueued st v = None \<or> (\<exists>q. enqueued st v = Some (q, 0) \<and> d + w < q)"
  shows "core G s t (push v (d + w) 0 u st)"
    and "relaxed G s (push v (d + w) 0 u st) u (done @ [(v, w)])"
    and "\<forall>x \<in> dom (explored st). best_cost s (push v (d + w) 0 u st) x = best_cost s st x"
proof -
  define st' where "st' = push v (d + w) 0 u st"
  define ne :: entry where "ne = (d + w + 0, counter st, v, d + w, Some u)"
  have q': "queue st' = queue st @ [ne]" by (simp add: st'_def ne_def)
  have enq': "enqueued st' = (enqueued st)(v \<mapsto> (d + w, 0))" by (simp add: st'_def)
  have ex': "explored st' = explored st" by (simp add: st'_def)
  have w0: "0 \<le> w" and hv: "has_node G v" using wf_neighbor [OF wf e] by simp_all
  have ew: "edge_weight G u v = Some w" using wf e by (simp add: edge_weight_iff)
  have cq: "\<forall>e \<in> set (queue st). entry_ok G s st e"
    and cx: "\<forall>v \<in> dom (explored st). explored_ok G s st v"
    and cm: "\<forall>v \<in> dom (explored st). \<forall>e \<in> set (queue st). best_cost s st v \<le> e_dist e"
    and cs: "\<forall>e \<in> set (queue st). e_node e \<in> dom (explored st) \<longrightarrow> e_node e \<noteq> s \<longrightarrow>
           best_cost s st (e_node e) < e_dist e"
    and cp: "pending_ok G s st"
    and cd: "distinct (map (\<lambda>e. (e_node e, e_dist e)) (queue st))"
    using c unfolding core_def by blast+
  have nx: "v \<notin> dom (explored st) \<or> v = s"
  proof (rule ccontr)
    assume "\<not> (v \<notin> dom (explored st) \<or> v = s)"
    then have vx: "v \<in> dom (explored st)" and vs: "v \<noteq> s" by simp_all
    from cx vx vs obtain q where q: "enqueued st v = Some (q, 0)"
      unfolding explored_ok_def by blast
    then have "best_cost s st v = q" using vs by (simp add: best_cost_def)
    with b vx have "q \<le> d" by auto
    with n q w0 show False by auto
  qed
  have bc: "best_cost s st' x = best_cost s st x" if "x \<noteq> v \<or> x = s" for x
    using that by (auto simp: best_cost_def enq')
  have bcx: "best_cost s st' x = best_cost s st x" if "x \<in> dom (explored st)" for x
  proof -
    from that nx have "x \<noteq> v \<or> x = s" by auto
    then show ?thesis by (rule bc)
  qed
  show "\<forall>x \<in> dom (explored st). best_cost s (push v (d + w) 0 u st) x = best_cost s st x"
    using bcx unfolding st'_def by blast
  have old_le: "d + w < e_dist e" if "e \<in> set (queue st)" "e_node e = v" for e
  proof -
    from cq that obtain q where q: "enqueued st v = Some (q, 0)" "q \<le> e_dist e"
      unfolding entry_ok_def by blast
    with n show ?thesis by auto
  qed
  have eo_old: "entry_ok G s st' e" if e: "e \<in> set (queue st)" for e
  proof -
    from cq e have o: "entry_ok G s st e" by blast
    then obtain u' w' where p: "e_parent e = Some u'" "u' \<in> dom (explored st)"
      "edge_weight G u' (e_node e) = Some w'" "e_dist e = best_cost s st u' + w'"
      unfolding entry_ok_def by blast
    from o obtain q where q: "enqueued st (e_node e) = Some (q, 0)" "q \<le> e_dist e"
      unfolding entry_ok_def by blast
    have "\<exists>q'. enqueued st' (e_node e) = Some (q', 0) \<and> q' \<le> e_dist e"
    proof (cases "e_node e = v")
      case True
      with old_le [OF e] show ?thesis by (simp add: enq')
    next
      case False
      with q show ?thesis by (simp add: enq')
    qed
    moreover have "e_prio e = e_dist e" using o unfolding entry_ok_def by blast
    ultimately show ?thesis
      unfolding entry_ok_def using p bcx [OF p(2)] by (auto simp: ex')
  qed
  have eo_new: "entry_ok G s st' ne"
    unfolding entry_ok_def using u ew d bcx [OF u] by (simp add: ne_def ex' enq')
  have xo: "explored_ok G s st' x" if x: "x \<in> dom (explored st)" for x
  proof -
    from cx x have o: "explored_ok G s st x" by blast
    show ?thesis
    proof (cases "x = s")
      case True
      with o show ?thesis unfolding explored_ok_def by (simp add: ex')
    next
      case False
      with o obtain u' w' q where p: "explored st x = Some (Some u')" "u' \<in> dom (explored st)"
        "edge_weight G u' x = Some w'" "best_cost s st x = best_cost s st u' + w'"
        "enqueued st x = Some (q, 0)"
        unfolding explored_ok_def by blast
      have "x \<noteq> v" using nx x False by blast
      then have "enqueued st' x = Some (q, 0)" using p(5) by (simp add: enq')
      with o p bcx [OF x] bcx [OF p(2)] show ?thesis
        unfolding explored_ok_def by (auto simp: ex')
    qed
  qed
  have mono: "best_cost s st' x \<le> e_dist e" if "x \<in> dom (explored st)" "e \<in> set (queue st')" for x e
  proof (cases "e = ne")
    case True
    have "best_cost s st x \<le> d" using b that(1) by blast
    with w0 have "best_cost s st x \<le> d + w" by linarith
    with True show ?thesis by (simp add: ne_def bcx [OF that(1)])
  next
    case False
    with that(2) have "e \<in> set (queue st)" by (simp add: q')
    with cm that(1) bcx [OF that(1)] show ?thesis by simp
  qed
  have stale: "best_cost s st' (e_node e) < e_dist e"
    if "e \<in> set (queue st')" "e_node e \<in> dom (explored st)" "e_node e \<noteq> s" for e
  proof (cases "e = ne")
    case True
    with that nx show ?thesis by (simp add: ne_def)
  next
    case False
    with that(1) have "e \<in> set (queue st)" by (simp add: q')
    with cs that(2,3) bcx [OF that(2)] show ?thesis by simp
  qed
  have pend: "pending_ok G s st'"
    unfolding pending_ok_def
  proof (intro allI impI)
    fix x q h assume a: "enqueued st' x = Some (q, h)"
    show "h = 0 \<and> has_node G x
        \<and> (x \<notin> dom (explored st') \<longrightarrow> x \<noteq> s \<longrightarrow> (\<exists>e \<in> set (queue st'). e_node e = x \<and> e_dist e = q))"
    proof (cases "x = v")
      case True
      with a have "q = d + w" "h = 0" by (simp_all add: enq')
      with True hv show ?thesis by (auto simp: q' ne_def)
    next
      case False
      with a have "enqueued st x = Some (q, h)" by (simp add: enq')
      with cp show ?thesis unfolding pending_ok_def by (auto simp: q' ex')
    qed
  qed
  have "(v, d + w) \<notin> set (map (\<lambda>e. (e_node e, e_dist e)) (queue st))"
  proof
    assume "(v, d + w) \<in> set (map (\<lambda>e. (e_node e, e_dist e)) (queue st))"
    then obtain e where "e \<in> set (queue st)" "e_node e = v" "e_dist e = d + w" by auto
    with old_le [of e] show False by simp
  qed
  with cd have dist: "distinct (map (\<lambda>e. (e_node e, e_dist e)) (queue st'))"
    by (simp add: q' ne_def)
  have src: "explored st s = Some None" and tgt: "t \<notin> dom (explored st)"
    using c unfolding core_def by blast+
  have eo: "\<forall>e \<in> set (queue st'). entry_ok G s st' e"
    using eo_old eo_new by (auto simp: q')
  show "core G s t (push v (d + w) 0 u st)"
    unfolding st'_def [symmetric] core_def ex'
    using src tgt eo xo mono stale pend dist by blast
  show "relaxed G s (push v (d + w) 0 u st) u (done @ [(v, w)])"
    unfolding st'_def [symmetric] relaxed_def
  proof (intro ballI impI)
    fix x vw
    assume x: "x \<in> dom (explored st')"
      and vw: "vw \<in> set (if x = u then done @ [(v, w)] else neighbors G x)"
      and ns: "fst vw \<noteq> s"
    have xx: "x \<in> dom (explored st)" using x by (simp add: ex')
    show "\<exists>q. enqueued st' (fst vw) = Some (q, 0) \<and> q \<le> best_cost s st' x + snd vw"
    proof (cases "x = u \<and> vw = (v, w)")
      case True
      then show ?thesis using d bcx [OF u] by (simp add: enq')
    next
      case False
      with vw have "vw \<in> set (if x = u then done else neighbors G x)" by (auto split: if_splits)
      with cl xx ns obtain q where q: "enqueued st (fst vw) = Some (q, 0)"
        "q \<le> best_cost s st x + snd vw"
        unfolding relaxed_def by blast
      show ?thesis
      proof (cases "fst vw = v")
        case True
        have "d + w \<le> q" using n q(1) True by auto
        with q(2) True show ?thesis using bcx [OF xx] by (simp add: enq')
      next
        case False
        with q show ?thesis using bcx [OF xx] by (simp add: enq')
      qed
    qed
  qed
qed

lemma relax_preserves:
  assumes wf: "wf_graph G" and c: "core G s t st" and cl: "relaxed G s st u done"
    and u: "u \<in> dom (explored st)" and d: "best_cost s st u = d"
    and b: "\<forall>x \<in> dom (explored st). best_cost s st x \<le> d"
    and e: "vw \<in> set (neighbors G u)"
  shows "core G s t (relax u d vw st) \<and> relaxed G s (relax u d vw st) u (done @ [vw])
         \<and> explored (relax u d vw st) = explored st
         \<and> (\<forall>x \<in> dom (explored st). best_cost s (relax u d vw st) x = best_cost s st x)"
proof -
  obtain v w where vw: "vw = (v, w)" by (cases vw)
  have e': "(v, w) \<in> set (neighbors G u)" using e vw by simp
  have cp: "pending_ok G s st" using c unfolding core_def by blast
  show ?thesis
  proof (cases "enqueued st v")
    case None
    then have r: "relax u d (v, w) st = push v (d + w) 0 u st"
      by (simp add: relax_def)
    have n: "enqueued st v = None \<or> (\<exists>q. enqueued st v = Some (q, 0) \<and> d + w < q)"
      using None by simp
    show ?thesis
      unfolding vw r using push_preserves [OF wf c cl u d b e' n] by simp
  next
    case (Some qh)
    obtain q h where qh: "qh = (q, h)" by (cases qh)
    have h: "h = 0" using cp Some qh unfolding pending_ok_def by blast
    show ?thesis
    proof (cases "q \<le> d + w")
      case True
      then have r: "relax u d (v, w) st = st"
        using Some qh by (simp add: relax_def)
      have "relaxed G s st u (done @ [(v, w)])"
        unfolding relaxed_def
      proof (intro ballI impI)
        fix x yz
        assume x: "x \<in> dom (explored st)"
          and yz: "yz \<in> set (if x = u then done @ [(v, w)] else neighbors G x)"
          and ns: "fst yz \<noteq> s"
        show "\<exists>q. enqueued st (fst yz) = Some (q, 0) \<and> q \<le> best_cost s st x + snd yz"
        proof (cases "x = u \<and> yz = (v, w)")
          case True
          then show ?thesis using Some qh h \<open>q \<le> d + w\<close> d by simp
        next
          case False
          with yz have "yz \<in> set (if x = u then done else neighbors G x)"
            by (auto split: if_splits)
          with cl x ns show ?thesis unfolding relaxed_def by blast
        qed
      qed
      with c show ?thesis unfolding vw r by simp
    next
      case False
      then have r: "relax u d (v, w) st = push v (d + w) 0 u st"
        using Some qh h by (simp add: relax_def)
      have n: "enqueued st v = None \<or> (\<exists>q. enqueued st v = Some (q, 0) \<and> d + w < q)"
        using Some qh h False by simp
      show ?thesis
        unfolding vw r using push_preserves [OF wf c cl u d b e' n] by simp
    qed
  qed
qed

lemma fold_relax_preserves:
  assumes wf: "wf_graph G" and c: "core G s t st" and cl: "relaxed G s st u done"
    and u: "u \<in> dom (explored st)" and d: "best_cost s st u = d"
    and b: "\<forall>x \<in> dom (explored st). best_cost s st x \<le> d"
    and e: "set nbrs \<subseteq> set (neighbors G u)"
  shows "core G s t (fold (relax u d) nbrs st)
         \<and> relaxed G s (fold (relax u d) nbrs st) u (done @ nbrs)
         \<and> explored (fold (relax u d) nbrs st) = explored st"
  using c cl u d b e
proof (induction nbrs arbitrary: st "done")
  case Nil
  then show ?case by simp
next
  case (Cons vw nbrs)
  have m: "vw \<in> set (neighbors G u)" using Cons.prems(6) by simp
  from relax_preserves [OF wf Cons.prems(1,2,3,4,5) m]
  have c1: "core G s t (relax u d vw st)"
    and cl1: "relaxed G s (relax u d vw st) u (done @ [vw])"
    and ex1: "explored (relax u d vw st) = explored st"
    and bc1: "\<forall>x \<in> dom (explored st). best_cost s (relax u d vw st) x = best_cost s st x"
    by blast+
  have u1: "u \<in> dom (explored (relax u d vw st))" using Cons.prems(3) ex1 by simp
  have d1: "best_cost s (relax u d vw st) u = d" using bc1 Cons.prems(3,4) by simp
  have b1: "\<forall>x \<in> dom (explored (relax u d vw st)). best_cost s (relax u d vw st) x \<le> d"
    using bc1 Cons.prems(5) ex1 by simp
  have e1: "set nbrs \<subseteq> set (neighbors G u)" using Cons.prems(6) by simp
  from Cons.IH [OF c1 cl1 u1 d1 b1 e1] ex1 show ?case by simp
qed

lemma distinct_map_remove1: "distinct (map f xs) \<Longrightarrow> distinct (map f (remove1 x xs))"
proof (induction xs)
  case Nil
  then show ?case by simp
next
  case (Cons a xs)
  have "set (remove1 x xs) \<subseteq> set xs" by (rule set_remove1_subset)
  with Cons show ?case by auto
qed

lemma distinct_map_remove1_notin:
  "distinct (map f xs) \<Longrightarrow> x \<in> set xs \<Longrightarrow> f x \<notin> f ` set (remove1 x xs)"
proof (induction xs)
  case Nil
  then show ?case by simp
next
  case (Cons a xs)
  show ?case
  proof (cases "x = a")
    case True
    with Cons.prems show ?thesis by simp
  next
    case False
    with Cons have "f x \<notin> f ` set (remove1 x xs)" by simp
    moreover have "f x \<noteq> f a" using Cons.prems False by (metis distinct.simps(2) image_eqI list.simps(9) list.set_map set_ConsD)
    ultimately show ?thesis using False by simp
  qed
qed

lemma relaxed_all:
  "relaxed G s st u (neighbors G u) \<longleftrightarrow>
     (\<forall>x \<in> dom (explored st). \<forall>vw \<in> set (neighbors G x).
        fst vw \<noteq> s \<longrightarrow> (\<exists>q. enqueued st (fst vw) = Some (q, 0) \<and> q \<le> best_cost s st x + snd vw))"
  unfolding relaxed_def by (intro ball_cong refl) simp

lemma path_weight_nonneg: "wf_graph G \<Longrightarrow> 0 \<le> path_weight G p"
proof (induction G p rule: path_weight.induct)
  case (1 G u v p)
  have "0 \<le> (case edge_weight G u v of None \<Rightarrow> 0 | Some w \<Rightarrow> w)"
  proof (cases "edge_weight G u v")
    case None
    then show ?thesis by simp
  next
    case (Some w)
    with 1(2) have "(v, w) \<in> set (neighbors G u)" by (simp add: edge_weight_iff)
    with 1(2) Some show ?thesis using wf_neighbor(1) by fastforce
  qed
  with 1 show ?case by simp
qed simp_all

lemma lower_bound:
  assumes wf: "wf_graph G" and inv: "astar_inv G s t st"
  shows "is_path G p \<Longrightarrow> hd p = s \<Longrightarrow>
         (last p \<in> dom (explored st) \<longrightarrow> best_cost s st (last p) \<le> path_weight G p)
         \<and> (last p \<notin> dom (explored st) \<longrightarrow> (\<exists>e \<in> set (queue st). e_dist e \<le> path_weight G p))"
proof (induction p rule: rev_induct)
  case Nil
  then show ?case by simp
next
  case (snoc y xs)
  have c: "core G s t st" and r: "relaxed G s st s (neighbors G s)"
    using inv unfolding astar_inv_def by simp_all
  have sx: "s \<in> dom (explored st)" using c unfolding core_def by blast
  have cm: "\<forall>v \<in> dom (explored st). \<forall>e \<in> set (queue st). best_cost s st v \<le> e_dist e"
    and cp: "pending_ok G s st"
    using c unfolding core_def by blast+
  show ?case
  proof (cases "xs = []")
    case True
    with snoc.prems have "y = s" by simp
    with True sx show ?thesis by (simp add: best_cost_def)
  next
    case False
    define x where "x = last xs"
    from snoc.prems(1) False have px: "is_path G xs" and ex: "edge_weight G x y \<noteq> None"
      using is_path_snoc [OF wf False, of y] by (simp_all add: x_def)
    from ex obtain w where w: "edge_weight G x y = Some w" by blast
    then have nb: "(y, w) \<in> set (neighbors G x)" using wf by (simp add: edge_weight_iff)
    then have w0: "0 \<le> w" using wf_neighbor(1) [OF wf] by blast
    have hx: "hd xs = s" using snoc.prems(2) False by simp
    have pw: "path_weight G (xs @ [y]) = path_weight G xs + w"
      using path_weight_snoc [OF False, of G y] w by (simp add: x_def)
    note IH = snoc.IH [OF px hx, folded x_def]
    have rel: "\<exists>q. enqueued st y = Some (q, 0) \<and> q \<le> best_cost s st x + w"
      if "x \<in> dom (explored st)" "y \<noteq> s"
      using r that nb unfolding relaxed_all by fastforce
    have goal1: "best_cost s st y \<le> path_weight G (xs @ [y])" if yx: "y \<in> dom (explored st)"
    proof (cases "y = s")
      case True
      then show ?thesis using path_weight_nonneg [OF wf, of "xs @ [y]"] by (simp add: best_cost_def)
    next
      case ys: False
      show ?thesis
      proof (cases "x \<in> dom (explored st)")
        case True
        from rel [OF True ys] obtain q where q: "enqueued st y = Some (q, 0)" "q \<le> best_cost s st x + w"
          by blast
        from q(1) ys have "best_cost s st y = q" by (simp add: best_cost_def)
        with q(2) IH True pw show ?thesis by simp
      next
        case False
        with IH obtain e where e: "e \<in> set (queue st)" "e_dist e \<le> path_weight G xs" by blast
        with cm yx have "best_cost s st y \<le> e_dist e" by blast
        with e(2) w0 pw show ?thesis by simp
      qed
    qed
    have goal2: "\<exists>e \<in> set (queue st). e_dist e \<le> path_weight G (xs @ [y])"
      if yx: "y \<notin> dom (explored st)"
    proof (cases "x \<in> dom (explored st)")
      case True
      have ys: "y \<noteq> s" using yx sx by blast
      from rel [OF True ys] obtain q where q: "enqueued st y = Some (q, 0)" "q \<le> best_cost s st x + w"
        by blast
      with cp yx ys obtain e where e: "e \<in> set (queue st)" "e_dist e = q"
        unfolding pending_ok_def by blast
      with q(2) IH True pw show ?thesis by force
    next
      case False
      with IH obtain e where e: "e \<in> set (queue st)" "e_dist e \<le> path_weight G xs" by blast
      with w0 pw show ?thesis by force
    qed
    show ?thesis using goal1 goal2 by simp
  qed
qed

lemma chain_is_path:
  assumes wf: "wf_graph G" and c: "core G s t st"
  shows "chain (explored st) (v # l) \<Longrightarrow>
         is_path G (rev (v # l)) \<and> hd (rev (v # l)) = s
         \<and> path_weight G (rev (v # l)) = best_cost s st v"
proof (induction l arbitrary: v)
  case Nil
  then have ev: "explored st v = Some None" by simp
  then have vx: "v \<in> dom (explored st)" by blast
  with c have o: "explored_ok G s st v" unfolding core_def by blast
  with ev have "v = s" unfolding explored_ok_def by auto
  with o show ?case unfolding explored_ok_def by (simp add: best_cost_def)
next
  case (Cons u l)
  then have ev: "explored st v = Some (Some u)" and ch: "chain (explored st) (u # l)" by simp_all
  have vx: "v \<in> dom (explored st)" using ev by blast
  with c have o: "explored_ok G s st v" unfolding core_def by blast
  have "explored st s = Some None" using c unfolding core_def by blast
  with ev have vs: "v \<noteq> s" by auto
  with o ev obtain w where w: "edge_weight G u v = Some w" "best_cost s st v = best_cost s st u + w"
    unfolding explored_ok_def by auto
  from Cons.IH [OF ch] have ih: "is_path G (rev (u # l))" "hd (rev (u # l)) = s"
    "path_weight G (rev (u # l)) = best_cost s st u" by simp_all
  have ne: "rev (u # l) \<noteq> []" by simp
  have la: "last (rev (u # l)) = u" by simp
  have r: "rev (v # u # l) = rev (u # l) @ [v]" by simp
  have "is_path G (rev (u # l) @ [v])"
    using is_path_snoc [OF wf ne, of v] ih(1) w(1) la by simp
  moreover have "hd (rev (u # l) @ [v]) = s"
    using ih(2) ne by (simp del: rev.simps)
  moreover have "path_weight G (rev (u # l) @ [v]) = best_cost s st v"
    using path_weight_snoc [OF ne, of G v] ih(3) w la by simp
  ultimately show ?case unfolding r by blast
qed

lemma best_cost_queue [simp]: "best_cost s (st\<lparr>queue := q\<rparr>) v = best_cost s st v"
  by (simp add: best_cost_def)

lemma entry_ok_queue [simp]: "entry_ok G s (st\<lparr>queue := q\<rparr>) e = entry_ok G s st e"
  by (simp add: entry_ok_def)

lemma explored_ok_queue [simp]: "explored_ok G s (st\<lparr>queue := q\<rparr>) v = explored_ok G s st v"
  by (simp add: explored_ok_def)

lemma relaxed_queue [simp]: "relaxed G s (st\<lparr>queue := q\<rparr>) u done = relaxed G s st u done"
  by (simp add: relaxed_def)

lemma pop_preserves:
  assumes inv: "astar_inv G s t st" and m: "m \<in> set (queue st)"
    and x: "e_node m \<in> dom (explored st)"
  shows "astar_inv G s t (st\<lparr>queue := remove1 m (queue st)\<rparr>)"
proof -
  have c: "core G s t st" using inv by (simp add: astar_inv_def)
  have sub: "set (remove1 m (queue st)) \<subseteq> set (queue st)" by (rule set_remove1_subset)
  have cp: "pending_ok G s st" using c unfolding core_def by blast
  have "pending_ok G s (st\<lparr>queue := remove1 m (queue st)\<rparr>)"
    unfolding pending_ok_def
  proof (intro allI impI)
    fix v q h
    assume a: "enqueued (st\<lparr>queue := remove1 m (queue st)\<rparr>) v = Some (q, h)"
    then have a': "enqueued st v = Some (q, h)" by simp
    have "\<exists>e \<in> set (remove1 m (queue st)). e_node e = v \<and> e_dist e = q"
      if "v \<notin> dom (explored st)" "v \<noteq> s"
    proof -
      from cp a' that obtain e where e: "e \<in> set (queue st)" "e_node e = v" "e_dist e = q"
        unfolding pending_ok_def by blast
      with x that(1) have "e \<noteq> m" by auto
      with e show ?thesis by auto
    qed
    with cp a' show "h = 0 \<and> has_node G v \<and>
        (v \<notin> dom (explored (st\<lparr>queue := remove1 m (queue st)\<rparr>)) \<longrightarrow> v \<noteq> s \<longrightarrow>
          (\<exists>e \<in> set (queue (st\<lparr>queue := remove1 m (queue st)\<rparr>)). e_node e = v \<and> e_dist e = q))"
      unfolding pending_ok_def by simp
  qed
  moreover have "distinct (map (\<lambda>e. (e_node e, e_dist e)) (remove1 m (queue st)))"
    using c unfolding core_def by (simp add: distinct_map_remove1)
  ultimately have "core G s t (st\<lparr>queue := remove1 m (queue st)\<rparr>)"
    using c sub unfolding core_def by simp blast
  with inv show ?thesis by (simp add: astar_inv_def)
qed

lemma explore_preserves:
  assumes wf: "wf_graph G" and inv: "astar_inv G s t st" and m: "m \<in> set (queue st)"
    and least: "\<forall>x \<in> set (queue st). e_prio m \<le> e_prio x"
    and ux: "e_node m \<notin> dom (explored st)" and ut: "e_node m \<noteq> t"
  defines "st2 \<equiv> st\<lparr>queue := remove1 m (queue st), explored := (explored st)(e_node m \<mapsto> e_parent m)\<rparr>"
  shows "core G s t st2" and "relaxed G s st2 (e_node m) []"
    and "best_cost s st2 (e_node m) = e_dist m"
    and "\<forall>x \<in> dom (explored st2). best_cost s st2 x \<le> e_dist m"
    and "has_node G (e_node m)"
proof -
  define u where "u = e_node m"
  define d where "d = e_dist m"
  have c: "core G s t st" and r: "relaxed G s st s (neighbors G s)"
    using inv by (simp_all add: astar_inv_def)
  have src: "explored st s = Some None" and tgt: "t \<notin> dom (explored st)"
    and cq: "\<forall>e \<in> set (queue st). entry_ok G s st e"
    and cx: "\<forall>v \<in> dom (explored st). explored_ok G s st v"
    and cm: "\<forall>v \<in> dom (explored st). \<forall>e \<in> set (queue st). best_cost s st v \<le> e_dist e"
    and cs: "\<forall>e \<in> set (queue st). e_node e \<in> dom (explored st) \<longrightarrow> e_node e \<noteq> s \<longrightarrow>
           best_cost s st (e_node e) < e_dist e"
    and cp: "pending_ok G s st"
    and cd: "distinct (map (\<lambda>e. (e_node e, e_dist e)) (queue st))"
    using c unfolding core_def by blast+
  have us: "u \<noteq> s" using ux src by (auto simp: u_def)
  have q2: "queue st2 = remove1 m (queue st)" and enq2: "enqueued st2 = enqueued st"
    and ex2: "explored st2 = (explored st)(u \<mapsto> e_parent m)"
    by (simp_all add: st2_def u_def)
  have sub: "set (queue st2) \<subseteq> set (queue st)" unfolding q2 by (rule set_remove1_subset)
  have bc: "best_cost s st2 v = best_cost s st v" for v
    by (simp add: best_cost_def enq2)
  from cq m have om: "entry_ok G s st m" by blast
  then obtain u' w where p: "e_parent m = Some u'" "u' \<in> dom (explored st)"
    "edge_weight G u' u = Some w" "d = best_cost s st u' + w"
    unfolding entry_ok_def u_def d_def by blast
  from om obtain q where q: "enqueued st u = Some (q, 0)" "q \<le> d"
    unfolding entry_ok_def u_def d_def by blast
  have pd: "e_prio x = e_dist x" if "x \<in> set (queue st)" for x
    using cq that unfolding entry_ok_def by blast
  have dle: "d \<le> e_dist x" if "x \<in> set (queue st)" for x
    using least that pd [OF that] pd [OF m] by (auto simp: d_def)
  from cp q(1) ux us obtain e where e: "e \<in> set (queue st)" "e_node e = u" "e_dist e = q"
    unfolding pending_ok_def u_def by blast
  with dle [of e] q(2) have qd: "q = d" by simp
  have bu: "best_cost s st u = d" using q(1) us qd by (simp add: best_cost_def)
  show "best_cost s st2 (e_node m) = e_dist m"
    using bu bc by (simp add: u_def d_def)
  have hu: "has_node G u" using cp q(1) unfolding pending_ok_def by blast
  then show "has_node G (e_node m)" by (simp add: u_def)
  have bound: "best_cost s st x \<le> d" if "x \<in> dom (explored st2)" for x
  proof (cases "x = u")
    case True
    with bu show ?thesis by simp
  next
    case False
    with that have "x \<in> dom (explored st)" by (simp add: ex2)
    with cm m show ?thesis unfolding d_def by blast
  qed
  then show "\<forall>x \<in> dom (explored st2). best_cost s st2 x \<le> e_dist m"
    by (simp add: bc d_def)
  have dom2: "dom (explored st2) = insert u (dom (explored st))" by (simp add: ex2)
  have eo: "entry_ok G s st2 x" if "x \<in> set (queue st2)" for x
  proof -
    from that sub cq have "entry_ok G s st x" by blast
    then show ?thesis unfolding entry_ok_def by (auto simp: bc enq2 dom2)
  qed
  have xo: "explored_ok G s st2 v" if v: "v \<in> dom (explored st2)" for v
  proof (cases "v = u")
    case True
    obtain l where l: "chain (explored st) (u' # l)"
      using cx p(2) unfolding explored_ok_def by blast
    have "chain (explored st2) (u' # l)"
      unfolding ex2 using l ux by (intro chain_upd) (simp_all add: u_def)
    then have "chain (explored st2) (u # u' # l)" using p(1) by (simp add: ex2)
    then have "\<exists>l. chain (explored st2) (u # l)" by blast
    with True hu p q bu show ?thesis
      unfolding explored_ok_def by (simp add: bc enq2 ex2)
  next
    case False
    with v have vx: "v \<in> dom (explored st)" by (simp add: ex2)
    with cx have o: "explored_ok G s st v" by blast
    then obtain l where l: "chain (explored st) (v # l)" unfolding explored_ok_def by blast
    have ch: "\<exists>l. chain (explored st2) (v # l)"
      unfolding ex2 using chain_upd [OF l, of u] ux by (auto simp: u_def)
    show ?thesis
    proof (cases "v = s")
      case True
      with o ch show ?thesis unfolding explored_ok_def by simp
    next
      case vs: False
      with o obtain u'' w'' q'' where "explored st v = Some (Some u'')" "u'' \<in> dom (explored st)"
        "edge_weight G u'' v = Some w''" "best_cost s st v = best_cost s st u'' + w''"
        "enqueued st v = Some (q'', 0)"
        unfolding explored_ok_def by blast
      with o ch False show ?thesis
        unfolding explored_ok_def by (auto simp: bc enq2 ex2)
    qed
  qed
  have mono: "best_cost s st2 v \<le> e_dist x" if "v \<in> dom (explored st2)" "x \<in> set (queue st2)" for v x
  proof -
    from that(2) sub have "x \<in> set (queue st)" by blast
    then have "d \<le> e_dist x" by (rule dle)
    with bound [OF that(1)] show ?thesis by (simp add: bc)
  qed
  have stale: "best_cost s st2 (e_node x) < e_dist x"
    if x: "x \<in> set (queue st2)" "e_node x \<in> dom (explored st2)" "e_node x \<noteq> s" for x
  proof (cases "e_node x = u")
    case True
    from x(1) sub have xq: "x \<in> set (queue st)" by blast
    have "(e_node m, e_dist m) \<notin> (\<lambda>e. (e_node e, e_dist e)) ` set (remove1 m (queue st))"
      using distinct_map_remove1_notin [OF cd m] .
    moreover have "(\<lambda>e. (e_node e, e_dist e)) x \<in> (\<lambda>e. (e_node e, e_dist e)) ` set (remove1 m (queue st))"
      using x(1) unfolding q2 by (rule imageI)
    ultimately have "(e_node x, e_dist x) \<noteq> (e_node m, e_dist m)" by metis
    then have "(e_node x, e_dist x) \<noteq> (u, d)" unfolding u_def d_def .
    with True have "e_dist x \<noteq> d" by simp
    with dle [OF xq] True bu show ?thesis by (simp add: bc)
  next
    case False
    with x(2) have "e_node x \<in> dom (explored st)" by (simp add: ex2)
    moreover from x(1) sub have "x \<in> set (queue st)" by blast
    ultimately show ?thesis using cs x(3) by (simp add: bc)
  qed
  have pend: "pending_ok G s st2"
    unfolding pending_ok_def
  proof (intro allI impI)
    fix v q' h
    assume a: "enqueued st2 v = Some (q', h)"
    then have a': "enqueued st v = Some (q', h)" by (simp add: enq2)
    have "\<exists>e \<in> set (queue st2). e_node e = v \<and> e_dist e = q'"
      if "v \<notin> dom (explored st2)" "v \<noteq> s"
    proof -
      from that(1) have "v \<notin> dom (explored st)" "v \<noteq> u" by (simp_all add: ex2)
      with cp a' that(2) obtain e where e: "e \<in> set (queue st)" "e_node e = v" "e_dist e = q'"
        unfolding pending_ok_def by blast
      with \<open>v \<noteq> u\<close> have "e \<noteq> m" by (auto simp: u_def)
      with e show ?thesis unfolding q2 by auto
    qed
    with cp a' show "h = 0 \<and> has_node G v \<and>
        (v \<notin> dom (explored st2) \<longrightarrow> v \<noteq> s \<longrightarrow> (\<exists>e \<in> set (queue st2). e_node e = v \<and> e_dist e = q'))"
      unfolding pending_ok_def by blast
  qed
  have dist: "distinct (map (\<lambda>e. (e_node e, e_dist e)) (queue st2))"
    unfolding q2 using cd by (rule distinct_map_remove1)
  have src2: "explored st2 s = Some None" using src us by (simp add: ex2)
  have tgt2: "t \<notin> dom (explored st2)" using tgt ut by (simp add: ex2 u_def)
  show "core G s t st2"
    unfolding core_def using src2 tgt2 eo xo mono stale pend dist by blast
  show "relaxed G s st2 (e_node m) []"
    unfolding relaxed_def u_def [symmetric]
  proof (intro ballI impI)
    fix x vw
    assume x: "x \<in> dom (explored st2)"
      and vw: "vw \<in> set (if x = u then [] else neighbors G x)"
      and ns: "fst vw \<noteq> s"
    from vw have xu: "x \<noteq> u" and nb: "vw \<in> set (neighbors G x)" by (auto split: if_splits)
    with x have "x \<in> dom (explored st)" by (simp add: ex2)
    with r nb ns show "\<exists>q. enqueued st2 (fst vw) = Some (q, 0) \<and> q \<le> best_cost s st2 x + snd vw"
      unfolding relaxed_all by (simp add: bc enq2)
  qed
qed

lemma astar_step_nonempty:
  assumes "queue st \<noteq> []"
  shows "astar_step G source target st =
         (let m = heap_min (hd (queue st)) (tl (queue st));
              curnode = e_node m; dist' = e_dist m; parent = e_parent m;
              st1 = st\<lparr>queue := remove1 m (queue st)\<rparr>
          in if curnode = target
             then Return (map_option (map_sum (\<lambda>err. err) rev)
                            (build_path (explored st1) parent [curnode]))
             else
               (case explored st1 curnode of
                  Some None \<Rightarrow> Continue st1
                | Some (Some par) \<Rightarrow>
                   (case enqueued st1 curnode of
                      None \<Rightarrow> Return (Some (Inl KeyError))
                    | Some qh \<Rightarrow>
                       if fst qh < dist' then Continue st1
                       else (case map_of (adj G) curnode of
                               None \<Rightarrow> Return (Some (Inl KeyError))
                             | Some nbrs \<Rightarrow>
                                Continue (fold (relax curnode dist') nbrs
                                  (st1\<lparr>explored := (explored st1)(curnode \<mapsto> parent)\<rparr>))))
                | None \<Rightarrow>
                   (case map_of (adj G) curnode of
                      None \<Rightarrow> Return (Some (Inl KeyError))
                    | Some nbrs \<Rightarrow>
                       Continue (fold (relax curnode dist') nbrs
                         (st1\<lparr>explored := (explored st1)(curnode \<mapsto> parent)\<rparr>)))))"
proof (cases "queue st")
  case Nil
  with assms show ?thesis by simp
next
  case (Cons e es)
  have "hd (queue st) = e" "tl (queue st) = es" by (simp_all add: Cons)
  then show ?thesis
    unfolding astar_step_def by (simp only: Cons list.case)
qed

lemma astar_step_inv:
  assumes wf: "wf_graph G" and inv: "astar_inv G s t st"
  shows "(\<exists>r. astar_step G s t st = Return (Some r) \<and> search_post G s t r)
       \<or> (\<exists>st'. astar_step G s t st = Continue st' \<and> astar_inv G s t st' \<and>
            ((explored st' = explored st \<and> length (queue st') < length (queue st))
             \<or> (\<exists>u. u \<notin> dom (explored st) \<and> has_node G u
                    \<and> dom (explored st') = insert u (dom (explored st)))))"
proof -
  have c: "core G s t st" and r: "relaxed G s st s (neighbors G s)"
    using inv by (simp_all add: astar_inv_def)
  have src: "explored st s = Some None" and tgt: "t \<notin> dom (explored st)"
    and cq: "\<forall>e \<in> set (queue st). entry_ok G s st e"
    and cx: "\<forall>v \<in> dom (explored st). explored_ok G s st v"
    and cs: "\<forall>e \<in> set (queue st). e_node e \<in> dom (explored st) \<longrightarrow> e_node e \<noteq> s \<longrightarrow>
           best_cost s st (e_node e) < e_dist e"
    using c unfolding core_def by blast+
  show ?thesis
  proof (cases "queue st")
    case Nil
    have "\<not> connects G s t p" for p
    proof
      assume "connects G s t p"
      then have q: "is_path G p" "hd p = s" "last p = t" by (simp_all add: connects_def)
      have "last p \<notin> dom (explored st)" using tgt q(3) by simp
      with lower_bound [OF wf inv q(1,2)]
      have "\<exists>e \<in> set (queue st). e_dist e \<le> path_weight G p" by blast
      with Nil show False by simp
    qed
    then have "search_post G s t (Inl (NetworkXNoPath s t))" by (simp add: search_post_def)
    moreover have "astar_step G s t st = Return (Some (Inl (NetworkXNoPath s t)))"
      using Nil by (simp add: astar_step_def)
    ultimately show ?thesis by blast
  next
    case (Cons e es)
    have ne: "queue st \<noteq> []" using Cons by simp
    define m where "m = heap_min (hd (queue st)) (tl (queue st))"
    have me: "m = heap_min e es" by (simp add: m_def Cons)
    define u where "u = e_node m"
    define d where "d = e_dist m"
    define st1 where "st1 = st\<lparr>queue := remove1 m (queue st)\<rparr>"
    have m: "m \<in> set (queue st)" unfolding me Cons by (rule heap_min_mem)
    have least: "\<forall>x \<in> set (queue st). e_prio m \<le> e_prio x"
      unfolding me Cons using heap_min_le by blast
    have pd: "e_prio x = e_dist x" if "x \<in> set (queue st)" for x
      using cq that unfolding entry_ok_def by blast
    have dle: "d \<le> e_dist x" if "x \<in> set (queue st)" for x
      using least that pd [OF that] pd [OF m] by (auto simp: d_def)
    have "0 < length (queue st)" using m by (rule length_pos_if_in_set)
    then have len: "length (queue st1) < length (queue st)"
      using m by (simp add: st1_def length_remove1)
    from cq m have om: "entry_ok G s st m" by blast
    then obtain u' w where p: "e_parent m = Some u'" "u' \<in> dom (explored st)"
      "edge_weight G u' u = Some w" "d = best_cost s st u' + w"
      unfolding entry_ok_def u_def d_def by blast
    have ex1: "explored st1 = explored st" and enq1: "enqueued st1 = enqueued st"
      by (simp_all add: st1_def)
    have step: "astar_step G s t st =
      (if u = t
       then Return (map_option (map_sum (\<lambda>err. err) rev) (build_path (explored st) (e_parent m) [u]))
       else
         (case explored st u of
            Some None \<Rightarrow> Continue st1
          | Some (Some par) \<Rightarrow>
             (case enqueued st u of
                None \<Rightarrow> Return (Some (Inl KeyError))
              | Some qh \<Rightarrow>
                 if fst qh < d then Continue st1
                 else (case map_of (adj G) u of
                         None \<Rightarrow> Return (Some (Inl KeyError))
                       | Some nbrs \<Rightarrow>
                          Continue (fold (relax u d) nbrs
                            (st1\<lparr>explored := (explored st)(u \<mapsto> e_parent m)\<rparr>))))
          | None \<Rightarrow>
             (case map_of (adj G) u of
                None \<Rightarrow> Return (Some (Inl KeyError))
              | Some nbrs \<Rightarrow>
                 Continue (fold (relax u d) nbrs
                   (st1\<lparr>explored := (explored st)(u \<mapsto> e_parent m)\<rparr>)))))"
      unfolding astar_step_nonempty [OF ne] Let_def m_def [symmetric] u_def [symmetric]
        d_def [symmetric] st1_def [symmetric] ex1 enq1
      by (rule refl)
    show ?thesis
    proof (cases "u = t")
      case True
      from cx p(2) obtain l where l: "chain (explored st) (u' # l)"
        unfolding explored_ok_def by blast
      define pth where "pth = rev (u' # l) @ [t]"
      have bp: "build_path (explored st) (e_parent m) [u] = Some (Inr ([u] @ u' # l))"
        unfolding p(1) using l by (rule build_path_chain)
      have res: "astar_step G s t st = Return (Some (Inr pth))"
        unfolding step using True bp by (simp add: pth_def)
      from chain_is_path [OF wf c l] have cp: "is_path G (rev (u' # l))" "hd (rev (u' # l)) = s"
        "path_weight G (rev (u' # l)) = best_cost s st u'" by simp_all
      have ne: "rev (u' # l) \<noteq> []" by simp
      have la: "last (rev (u' # l)) = u'" by simp
      have ip: "is_path G pth"
        unfolding pth_def using is_path_snoc [OF wf ne, of t] cp(1) p(3) la True by simp
      have hp: "hd pth = s" unfolding pth_def using cp(2) ne by (simp del: rev.simps)
      have pw: "path_weight G pth = d"
        unfolding pth_def using path_weight_snoc [OF ne, of G t] cp(3) p(3,4) la True by simp
      have con: "connects G s t pth"
        using ip hp by (simp add: connects_def pth_def)
      have opt: "path_weight G pth \<le> path_weight G q" if "connects G s t q" for q
      proof -
        from that have q: "is_path G q" "hd q = s" "last q = t" by (simp_all add: connects_def)
        have "last q \<notin> dom (explored st)" using tgt q(3) by simp
        with lower_bound [OF wf inv q(1,2)]
        have "\<exists>e \<in> set (queue st). e_dist e \<le> path_weight G q" by blast
        then obtain x where
          x: "x \<in> set (queue st)" "e_dist x \<le> path_weight G q" by blast
        with dle [OF x(1)] pw show ?thesis by simp
      qed
      have "search_post G s t (Inr pth)" using con opt by (simp add: search_post_def)
      with res show ?thesis by blast
    next
      case ut: False
      show ?thesis
      proof (cases "u \<in> dom (explored st)")
        case True
        have inv1: "astar_inv G s t st1"
          unfolding st1_def using inv m True by (intro pop_preserves) (simp_all add: u_def)
        have "astar_step G s t st = Continue st1"
        proof (cases "u = s")
          case True
          with src ut show ?thesis unfolding step by simp
        next
          case False
          from cx True False obtain par q where e: "explored st u = Some (Some par)"
            "enqueued st u = Some (q, 0)"
            unfolding explored_ok_def by blast
          then have "best_cost s st u = q" using False by (simp add: best_cost_def)
          with cs m True False have "q < d" by (auto simp: u_def d_def)
          with e ut show ?thesis unfolding step by simp
        qed
        with inv1 len show ?thesis by (simp add: st1_def)
      next
        case False
        then have none: "explored st u = None" by blast
        define st2 where "st2 = st\<lparr>queue := remove1 m (queue st),
            explored := (explored st)(e_node m \<mapsto> e_parent m)\<rparr>"
        have ux: "e_node m \<notin> dom (explored st)" and ut': "e_node m \<noteq> t"
          using False ut by (simp_all add: u_def)
        note E = explore_preserves [OF wf inv m least ux ut', folded st2_def]
        have hu: "has_node G u" using E(5) by (simp add: u_def)
        then obtain nbrs where nbrs: "map_of (adj G) u = Some nbrs"
          using has_node_iff_adj [OF wf, of u] by auto
        then have nb: "neighbors G u = nbrs" by (simp add: neighbors_def)
        have st2: "st1\<lparr>explored := (explored st)(u \<mapsto> e_parent m)\<rparr> = st2"
          by (simp add: st1_def st2_def u_def)
        define st3 where "st3 = fold (relax u d) nbrs st2"
        have res: "astar_step G s t st = Continue st3"
          unfolding step st2 using ut none nbrs by (simp add: st3_def)
        have u2: "u \<in> dom (explored st2)" by (simp add: st2_def u_def)
        have d2: "best_cost s st2 u = d" using E(3) by (simp add: u_def d_def)
        have b2: "\<forall>x \<in> dom (explored st2). best_cost s st2 x \<le> d" using E(4) by (simp add: d_def)
        have r2: "relaxed G s st2 u []" using E(2) by (simp add: u_def)
        have sub: "set nbrs \<subseteq> set (neighbors G u)" by (simp add: nb)
        from fold_relax_preserves [OF wf E(1) r2 u2 d2 b2 sub]
        have c3: "core G s t st3" and r3: "relaxed G s st3 u (neighbors G u)"
          and e3: "explored st3 = explored st2"
          by (simp_all add: st3_def nb)
        have "relaxed G s st3 s (neighbors G s)"
          using r3 unfolding relaxed_all .
        with c3 have inv3: "astar_inv G s t st3" by (simp add: astar_inv_def)
        have "dom (explored st3) = insert u (dom (explored st))"
          unfolding e3 by (simp add: st2_def u_def)
        with res inv3 False hu show ?thesis by blast
      qed
    qed
  qed
qed

lemma astar_loop_correct:
  assumes wf: "wf_graph G"
  shows "astar_inv G s t st \<Longrightarrow> \<exists>r. astar_loop G s t st = Some r \<and> search_post G s t r"
proof -
  define K where "K = {v. has_node G v}"
  define R :: "(astar_state \<times> astar_state) set" where
    "R = inv_image (less_than <*lex*> less_than)
      (\<lambda>st. (card (K - dom (explored st)), length (queue st)))"
  have fin: "finite K"
  proof -
    have "K = fst ` set (nodes G)"
      by (auto simp: K_def has_node_def map_of_eq_None_iff)
    then show ?thesis by simp
  qed
  have wfR: "wf R" unfolding R_def by (intro wf_inv_image wf_lex_prod wf_less_than)
  show "astar_inv G s t st \<Longrightarrow> \<exists>r. astar_loop G s t st = Some r \<and> search_post G s t r"
  proof (induction st rule: wf_induct_rule [OF wfR])
    case (1 st)
    from astar_step_inv [OF wf "1.prems"] consider
      (ret) r where "astar_step G s t st = Return (Some r)" "search_post G s t r"
      | (cont) st' where "astar_step G s t st = Continue st'" "astar_inv G s t st'"
          "(explored st' = explored st \<and> length (queue st') < length (queue st))
           \<or> (\<exists>u. u \<notin> dom (explored st) \<and> has_node G u
                  \<and> dom (explored st') = insert u (dom (explored st)))"
      by blast
    then show ?case
    proof cases
      case ret
      then show ?thesis by (subst astar_loop.simps) simp
    next
      case cont
      have "(st', st) \<in> R"
      proof -
        from cont(3) consider
          (a) "explored st' = explored st" "length (queue st') < length (queue st)"
          | (b) u where "u \<notin> dom (explored st)" "has_node G u"
              "dom (explored st') = insert u (dom (explored st))"
          by blast
        then show ?thesis
        proof cases
          case a
          then show ?thesis by (simp add: R_def)
        next
          case b
          have "K - dom (explored st') \<subset> K - dom (explored st)"
            using b by (auto simp: K_def)
          then have "card (K - dom (explored st')) < card (K - dom (explored st))"
            using fin by (intro psubset_card_mono) simp_all
          then show ?thesis by (simp add: R_def)
        qed
      qed
      from "1.IH" [OF this cont(2)] obtain r where
        "astar_loop G s t st' = Some r" "search_post G s t r" by blast
      with cont(1) show ?thesis by (subst astar_loop.simps) simp
    qed
  qed
qed

lemma connects_self:
  assumes "wf_graph G" and "has_node G s"
  shows "search_post G s s (Inr [s])"
  using assms path_weight_nonneg [OF assms(1)]
  by (simp add: search_post_def connects_def)

lemma heap_min_Nil: "heap_min e [] = e"
  by (simp add: heap_min_def)

lemma build_path_None: "build_path ex None p = Some (Inr p)"
  by (subst build_path.simps) simp

lemma astar_step_initial:
  "astar_step G s t \<lparr>queue = [(0, 0, s, 0, None)], enqueued = Map.empty, explored = Map.empty,
      counter = 1\<rparr>
   = (if s = t then Return (Some (Inr [s]))
      else case map_of (adj G) s of
             None \<Rightarrow> Return (Some (Inl KeyError))
           | Some nbrs \<Rightarrow>
              Continue (fold (relax s 0) nbrs
                \<lparr>queue = [], enqueued = Map.empty, explored = [s \<mapsto> None], counter = 1\<rparr>))"
  by (simp add: astar_step_def heap_min_Nil Let_def build_path_None split: option.splits)

lemma astar_path_correct:
  assumes wf: "wf_graph G" and s: "has_node G s" and t: "has_node G t"
  shows "\<exists>r. astar_path G s t = Some r \<and> search_post G s t r"
proof -
  define st0 :: astar_state where
    "st0 = \<lparr>queue = [(0, 0, s, 0, None)], enqueued = Map.empty, explored = Map.empty, counter = 1\<rparr>"
  have ap: "astar_path G s t = astar_loop G s t st0"
    using s t by (simp add: astar_path_def st0_def)
  show ?thesis
  proof (cases "s = t")
    case True
    have "astar_step G s t st0 = Return (Some (Inr [s]))"
      unfolding st0_def astar_step_initial using True by simp
    then have "astar_loop G s t st0 = Some (Inr [s])"
      by (subst astar_loop.simps) simp
    with ap True connects_self [OF wf s] show ?thesis by simp
  next
    case False
    obtain nbrs where nbrs: "map_of (adj G) s = Some nbrs"
      using has_node_iff_adj [OF wf, of s] s by auto
    then have nb: "neighbors G s = nbrs" by (simp add: neighbors_def)
    define st2 :: astar_state where
      "st2 = \<lparr>queue = [], enqueued = Map.empty, explored = [s \<mapsto> None], counter = 1\<rparr>"
    define st3 where "st3 = fold (relax s 0) nbrs st2"
    have step: "astar_step G s t st0 = Continue st3"
      unfolding st0_def astar_step_initial using False nbrs by (simp add: st3_def st2_def)
    have "chain [s \<mapsto> None] [s]" by simp
    then have "\<exists>l. chain [s \<mapsto> None] (s # l)" by blast
    then have c2: "core G s t st2"
      unfolding core_def using False s
      by (simp add: st2_def explored_ok_def pending_ok_def)
    have r2: "relaxed G s st2 s []" by (simp add: relaxed_def st2_def)
    have u2: "s \<in> dom (explored st2)" by (simp add: st2_def)
    have d2: "best_cost s st2 s = 0" by (simp add: best_cost_def)
    have b2: "\<forall>x \<in> dom (explored st2). best_cost s st2 x \<le> 0"
      by (simp add: st2_def best_cost_def)
    have sub: "set nbrs \<subseteq> set (neighbors G s)" by (simp add: nb)
    from fold_relax_preserves [OF wf c2 r2 u2 d2 b2 sub]
    have "astar_inv G s t st3" by (simp add: astar_inv_def st3_def nb)
    from astar_loop_correct [OF wf this] obtain r where
      "astar_loop G s t st3 = Some r" "search_post G s t r" by blast
    moreover have "astar_loop G s t st0 = astar_loop G s t st3"
      using step by (subst astar_loop.simps) simp
    ultimately show ?thesis using ap by simp
  qed
qed

text \<open>
  C1.  On a well-formed graph (every graph that \<^verbatim>\<open>create_graph\<close> builds is one, see
  \<open>create_graph_wf\<close> below: in particular no weight is negative), for two nodes joined by
  some path, \<open>find_path\<close> returns: its result is a path from the
  start to the end whose weight is at most the weight of every path from the start to the
  end, and the object records the two ids and the path.
\<close>

theorem find_path_shortest:
  assumes "wf_graph (graph gg)" and "has_node (graph gg) start" and "has_node (graph gg) goal"
    and "connects (graph gg) start goal q"
  shows "\<exists>p. find_path gg start goal
              = Some (Inr p, gg\<lparr>start_id := Some start, end_id := Some goal, path := Some p\<rparr>)
           \<and> connects (graph gg) start goal p
           \<and> (\<forall>q'. connects (graph gg) start goal q' \<longrightarrow>
                 path_weight (graph gg) p \<le> path_weight (graph gg) q')"
proof -
  from astar_path_correct [OF assms(1,2,3)] obtain r where
    r: "astar_path (graph gg) start goal = Some r" "search_post (graph gg) start goal r" by blast
  show ?thesis
  proof (cases r)
    case (Inl e)
    with r(2) assms(4) show ?thesis by (simp add: search_post_def)
  next
    case (Inr p)
    with r assms(2,3) show ?thesis
      by (simp add: search_post_def find_path_def)
  qed
qed

text \<open>
  C5.  On a well-formed graph, for two nodes that no path joins, \<open>find_path\<close> returns with
  the exception \<^verbatim>\<open>NetworkXNoPath\<close>; it yields no path, empty or partial, and the \<open>path\<close>
  attribute of the object is left as it was.
\<close>

theorem find_path_no_path:
  assumes "wf_graph (graph gg)" and "has_node (graph gg) start" and "has_node (graph gg) goal"
    and "\<forall>q. \<not> connects (graph gg) start goal q"
  shows "find_path gg start goal
           = Some (Inl (NetworkXNoPath start goal), gg\<lparr>start_id := Some start, end_id := Some goal\<rparr>)"
proof -
  from astar_path_correct [OF assms(1,2,3)] obtain r where
    r: "astar_path (graph gg) start goal = Some r" "search_post (graph gg) start goal r" by blast
  show ?thesis
  proof (cases r)
    case (Inl e)
    with r assms(2,3) show ?thesis
      by (simp add: search_post_def find_path_def)
  next
    case (Inr p)
    with r(2) assms(4) show ?thesis by (simp add: search_post_def)
  qed
qed

subsection \<open>The graph builder\<close>

lemma neighbors_adj:
  "neighbors (G\<lparr>adj := al\<rparr>) x = (case map_of al x of None \<Rightarrow> [] | Some l \<Rightarrow> l)"
  by (simp add: neighbors_def)

lemma neighbors_add_edge:
  "u \<noteq> v \<Longrightarrow> neighbors (add_edge u v w G) x =
     (if x = u then AList.update v w (neighbors G u)
      else if x = v then AList.update u w (neighbors G v)
      else neighbors G x)"
  by (simp add: add_edge_def Let_def neighbors_adj update_conv') (simp add: neighbors_def)

lemma edge_weight_add_edge:
  "u \<noteq> v \<Longrightarrow> edge_weight (add_edge u v w G) x y =
     (if (x = u \<and> y = v) \<or> (x = v \<and> y = u) then Some w else edge_weight G x y)"
  by (simp add: edge_weight_def neighbors_add_edge update_conv')

lemma nodes_add_edge [simp]: "nodes (add_edge u v w G) = nodes G"
  by (simp add: add_edge_def Let_def)

lemma has_node_add_edge [simp]: "has_node (add_edge u v w G) n = has_node G n"
  by (simp add: has_node_def)

lemma keys_add_edge:
  "set (map fst (adj (add_edge u v w G))) = insert u (insert v (set (map fst (adj G))))"
  by (auto simp: add_edge_def Let_def dom_update)

lemma distinct_add_edge:
  "distinct (map fst (adj G)) \<Longrightarrow> distinct (map fst (adj (add_edge u v w G)))"
  by (simp add: add_edge_def Let_def distinct_update)

lemma has_node_keys: "has_node G n \<longleftrightarrow> n \<in> set (map fst (nodes G))"
  by (simp add: has_node_def map_of_eq_None_iff)

lemma distance_commute: "distance p q = distance q p"
  by (simp add: distance_def power2_commute)

lemma link_ok:
  assumes ok: "graph_ok L G" and c: "has_node G cid"
  shows "graph_ok L (link L cid nb G) \<and> nodes (link L cid nb G) = nodes G"
proof (cases "cid \<noteq> nb \<and> has_node G nb")
  case False
  then have "link L cid nb G = G" unfolding link_def by (simp only: if_False)
  with ok show ?thesis by simp
next
  case True
  then have ne: "cid \<noteq> nb" and n: "has_node G nb" by simp_all
  from c obtain gu where gu: "map_of (nodes G) cid = Some gu" by (auto simp: has_node_def)
  from n obtain gv where gv: "map_of (nodes G) nb = Some gv" by (auto simp: has_node_def)
  define w where "w = distance (centroid L gu) (centroid L gv)"
  have l: "link L cid nb G = add_edge cid nb w G"
    using True gu gv by (simp add: link_def w_def)
  have ks: "set (map fst (adj G)) = set (map fst (nodes G))"
    using ok unfolding graph_ok_def by blast
  have "cid \<in> set (map fst (nodes G))" "nb \<in> set (map fst (nodes G))"
    using c n unfolding has_node_keys by simp_all
  then have k: "set (map fst (adj (add_edge cid nb w G))) = set (map fst (nodes G))"
    unfolding keys_add_edge ks by (simp add: insert_absorb)
  have dd: "\<forall>u. distinct (map fst (neighbors G u))"
    using ok unfolding graph_ok_def by blast
  have d: "\<forall>u. distinct (map fst (neighbors (add_edge cid nb w G) u))"
    using dd ne by (simp add: neighbors_add_edge distinct_update)
  have e: "\<forall>u v w'. edge_weight (add_edge cid nb w G) u v = Some w' \<longrightarrow>
           u \<noteq> v \<and> edge_weight (add_edge cid nb w G) v u = Some w'
           \<and> (\<exists>gu gv. map_of (nodes G) u = Some gu \<and> map_of (nodes G) v = Some gv
                  \<and> w' = distance (centroid L gu) (centroid L gv))"
  proof (intro allI impI)
    fix u v w'
    assume a: "edge_weight (add_edge cid nb w G) u v = Some w'"
    show "u \<noteq> v \<and> edge_weight (add_edge cid nb w G) v u = Some w'
           \<and> (\<exists>gu gv. map_of (nodes G) u = Some gu \<and> map_of (nodes G) v = Some gv
                  \<and> w' = distance (centroid L gu) (centroid L gv))"
    proof (cases "(u = cid \<and> v = nb) \<or> (u = nb \<and> v = cid)")
      case True
      with a ne have ww: "w' = w" by (simp add: edge_weight_add_edge)
      have sym: "distance (centroid L gu) (centroid L gv) = distance (centroid L gv) (centroid L gu)"
        by (rule distance_commute)
      from True show ?thesis
      proof
        assume "u = cid \<and> v = nb"
        with ne gu gv ww show ?thesis by (simp add: edge_weight_add_edge w_def)
      next
        assume "u = nb \<and> v = cid"
        with ne gu gv ww sym show ?thesis by (simp add: edge_weight_add_edge w_def)
      qed
    next
      case False
      with a ne have "edge_weight G u v = Some w'" by (simp add: edge_weight_add_edge)
      with ok have "u \<noteq> v \<and> edge_weight G v u = Some w'
           \<and> (\<exists>gu gv. map_of (nodes G) u = Some gu \<and> map_of (nodes G) v = Some gv
                  \<and> w' = distance (centroid L gu) (centroid L gv))"
        unfolding graph_ok_def by blast
      with False ne show ?thesis by (auto simp: edge_weight_add_edge)
    qed
  qed
  have dn: "distinct (map fst (nodes G))" and da: "distinct (map fst (adj G))"
    using ok unfolding graph_ok_def by blast+
  have "graph_ok L (add_edge cid nb w G)"
    unfolding graph_ok_def nodes_add_edge
    using dn distinct_add_edge [OF da, of cid nb w] k d e by (intro conjI)
  then show ?thesis by (simp add: l)
qed

lemma fold_link_ok:
  "graph_ok L G \<Longrightarrow> has_node G cid \<Longrightarrow>
   graph_ok L (fold (link L cid) nbrs G) \<and> nodes (fold (link L cid) nbrs G) = nodes G"
proof (induction nbrs arbitrary: G)
  case Nil
  then show ?case by simp
next
  case (Cons nb nbrs)
  from link_ok [OF Cons.prems] have a: "graph_ok L (link L cid nb G)"
    and b: "nodes (link L cid nb G) = nodes G" by simp_all
  have "has_node (link L cid nb G) cid" using Cons.prems(2) b by (simp add: has_node_def)
  from Cons.IH [OF a this] b show ?case by simp
qed

lemma fold_groups_ok:
  "graph_ok L G \<Longrightarrow>
   graph_ok L (fold (\<lambda>(cid, nbrs) G. if has_node G cid then fold (link L cid) nbrs G else G) groups G)
   \<and> nodes (fold (\<lambda>(cid, nbrs) G. if has_node G cid then fold (link L cid) nbrs G else G) groups G)
       = nodes G"
proof (induction groups arbitrary: G)
  case Nil
  then show ?case by simp
next
  case (Cons g groups)
  obtain cid nbrs where g: "g = (cid, nbrs)" by (cases g)
  define G' where "G' = (if has_node G cid then fold (link L cid) nbrs G else G)"
  have "graph_ok L G' \<and> nodes G' = nodes G"
    using fold_link_ok [of L G cid nbrs] Cons.prems by (simp add: G'_def)
  with Cons.IH [of G'] show ?case by (simp add: g G'_def)
qed

lemma nodes_add_node [simp]: "nodes (add_node n g G) = AList.update n g (nodes G)"
  by (simp add: add_node_def)

lemma has_node_add_node: "has_node (add_node n g G) m \<longleftrightarrow> m = n \<or> has_node G m"
  by (simp add: has_node_def update_conv')

lemma no_edges_empty: "no_edges empty_graph"
  by (simp add: no_edges_def empty_graph_def neighbors_def)

lemma no_edges_add_node:
  assumes "no_edges G"
  shows "no_edges (add_node n g G)"
proof (cases "has_node G n")
  case True
  then have "n \<in> set (map fst (nodes G))" by (simp add: has_node_keys)
  then have "set (map fst (AList.update n g (nodes G))) = set (map fst (nodes G))"
    using dom_update [of n g "nodes G"] by auto
  with assms True show ?thesis
    by (simp add: no_edges_def add_node_def distinct_update neighbors_def)
next
  case False
  have k: "set (map fst (AList.update n [] (adj G))) = set (map fst (AList.update n g (nodes G)))"
    using assms dom_update [of n g "nodes G"] dom_update [of n "[]" "adj G"]
    by (simp add: no_edges_def)
  have "neighbors (add_node n g G) u = []" for u
    using assms False
    by (simp add: no_edges_def add_node_def neighbors_def update_conv' split: option.splits)
  with assms False k show ?thesis
    by (simp add: no_edges_def add_node_def distinct_update)
qed

lemma no_edges_graph_ok: "no_edges G \<Longrightarrow> graph_ok L G"
  by (simp add: no_edges_def graph_ok_def edge_weight_def)

lemma fold_add_node:
  fixes rows :: "cell list"
  assumes "no_edges G"
  shows "no_edges (fold (\<lambda>row G. if passable row then add_node (cell_id row) (geometry row) G else G) rows G)
    \<and> (\<forall>n. has_node (fold (\<lambda>row G. if passable row then add_node (cell_id row) (geometry row) G else G) rows G) n
          \<longleftrightarrow> has_node G n \<or> (\<exists>c \<in> set rows. passable c \<and> cell_id c = n))
    \<and> (\<forall>n g. map_of (nodes (fold (\<lambda>row G. if passable row then add_node (cell_id row) (geometry row) G else G) rows G)) n = Some g
          \<longrightarrow> map_of (nodes G) n = Some g \<or> (\<exists>c \<in> set rows. passable c \<and> cell_id c = n \<and> geometry c = g))"
  using assms
proof (induction rows arbitrary: G)
  case Nil
  then show ?case by simp
next
  case (Cons row rows)
  define f :: "cell \<Rightarrow> graph \<Rightarrow> graph" where "f = (\<lambda>row G. if passable row then add_node (cell_id row) (geometry row) G else G)"
  define G' where "G' = f row G"
  have ne: "no_edges G'"
    using Cons.prems by (simp add: G'_def f_def no_edges_add_node)
  have hn: "has_node G' n \<longleftrightarrow> has_node G n \<or> (passable row \<and> cell_id row = n)" for n
    by (auto simp: G'_def f_def has_node_add_node)
  have mg: "map_of (nodes G') n = Some g \<Longrightarrow>
      map_of (nodes G) n = Some g \<or> (passable row \<and> cell_id row = n \<and> geometry row = g)" for n g
    by (auto simp: G'_def f_def update_conv' split: if_splits)
  from Cons.IH [OF ne] have
    a: "no_edges (fold f rows G')"
    and b: "\<forall>n. has_node (fold f rows G') n \<longleftrightarrow> has_node G' n \<or> (\<exists>c \<in> set rows. passable c \<and> cell_id c = n)"
    and c: "\<forall>n g. map_of (nodes (fold f rows G')) n = Some g
          \<longrightarrow> map_of (nodes G') n = Some g \<or> (\<exists>c \<in> set rows. passable c \<and> cell_id c = n \<and> geometry c = g)"
    unfolding f_def by blast+
  have b': "\<forall>n. has_node (fold f rows G') n \<longleftrightarrow> has_node G n \<or> (\<exists>c \<in> set (row # rows). passable c \<and> cell_id c = n)"
    using b hn by auto
  have c': "\<forall>n g. map_of (nodes (fold f rows G')) n = Some g
          \<longrightarrow> map_of (nodes G) n = Some g \<or> (\<exists>c \<in> set (row # rows). passable c \<and> cell_id c = n \<and> geometry c = g)"
  proof (intro allI impI)
    fix n g assume "map_of (nodes (fold f rows G')) n = Some g"
    with c have "map_of (nodes G') n = Some g \<or> (\<exists>c \<in> set rows. passable c \<and> cell_id c = n \<and> geometry c = g)"
      by blast
    with mg [of n g] show "map_of (nodes G) n = Some g \<or> (\<exists>c \<in> set (row # rows). passable c \<and> cell_id c = n \<and> geometry c = g)"
      by auto
  qed
  have "fold f (row # rows) G = fold f rows G'" by (simp add: G'_def)
  with a b' c' show ?case unfolding f_def by simp
qed

lemma create_graph_ok:
  "graph_ok L (create_graph L rows)
   \<and> (\<forall>n. has_node (create_graph L rows) n \<longleftrightarrow> (\<exists>c \<in> set rows. passable c \<and> cell_id c = n))
   \<and> (\<forall>n g. map_of (nodes (create_graph L rows)) n = Some g
          \<longrightarrow> (\<exists>c \<in> set rows. passable c \<and> cell_id c = n \<and> geometry c = g))"
proof -
  define G1 where "G1 = fold (\<lambda>row G. if passable row then add_node (cell_id row) (geometry row) G else G)
                rows empty_graph"
  from fold_add_node [OF no_edges_empty, of rows] have
    a: "no_edges G1"
    and b: "\<forall>n. has_node G1 n \<longleftrightarrow> (\<exists>c \<in> set rows. passable c \<and> cell_id c = n)"
    and c: "\<forall>n g. map_of (nodes G1) n = Some g
          \<longrightarrow> (\<exists>c \<in> set rows. passable c \<and> cell_id c = n \<and> geometry c = g)"
    unfolding G1_def by (simp_all add: has_node_def empty_graph_def)
  define groups where "groups = groupby_id_left (sjoin L rows (map (\<lambda>c. c\<lparr>geometry := buffer L (geometry c) 1\<rparr>) rows))"
  have cg: "create_graph L rows
    = fold (\<lambda>(cid, nbrs) G. if has_node G cid then fold (link L cid) nbrs G else G) groups G1"
    by (simp add: create_graph_def Let_def G1_def groups_def)
  from fold_groups_ok [OF no_edges_graph_ok [OF a], of L groups]
  have ok: "graph_ok L (create_graph L rows)" and n: "nodes (create_graph L rows) = nodes G1"
    unfolding cg by simp_all
  from n have "has_node (create_graph L rows) m = has_node G1 m" for m
    by (simp add: has_node_def)
  with ok b c n show ?thesis by simp
qed

lemma graph_ok_wf:
  assumes "graph_ok L G"
  shows "wf_graph G"
proof -
  have dn: "distinct (map fst (nodes G))" and da: "distinct (map fst (adj G))"
    and k: "set (map fst (adj G)) = set (map fst (nodes G))"
    and dd: "\<forall>u. distinct (map fst (neighbors G u))"
    and e: "\<forall>u v w. edge_weight G u v = Some w \<longrightarrow>
           u \<noteq> v \<and> edge_weight G v u = Some w
           \<and> (\<exists>gu gv. map_of (nodes G) u = Some gu \<and> map_of (nodes G) v = Some gv
                  \<and> w = distance (centroid L gu) (centroid L gv))"
    using assms unfolding graph_ok_def by blast+
  have "distinct (map fst nbrs) \<and> (\<forall>vw \<in> set nbrs. 0 \<le> snd vw \<and> has_node G (fst vw))"
    if un: "(u, nbrs) \<in> set (adj G)" for u nbrs
  proof -
    from da un have "map_of (adj G) u = Some nbrs" by simp
    then have nb: "neighbors G u = nbrs" by (simp add: neighbors_def)
    with dd have d: "distinct (map fst nbrs)" by metis
    have "0 \<le> snd vw \<and> has_node G (fst vw)" if "vw \<in> set nbrs" for vw
    proof -
      obtain v w where vw: "vw = (v, w)" by (cases vw)
      with that d have "map_of nbrs v = Some w" by simp
      then have "edge_weight G u v = Some w" by (simp add: edge_weight_def nb)
      with e obtain gu gv where "map_of (nodes G) v = Some gv"
        "w = distance (centroid L gu) (centroid L gv)" by blast
      then show ?thesis by (simp add: vw has_node_def distance_nonneg)
    qed
    with d show ?thesis by blast
  qed
  then have "\<forall>un \<in> set (adj G). distinct (map fst (snd un))
      \<and> (\<forall>vw \<in> set (snd un). 0 \<le> snd vw \<and> has_node G (fst vw))"
    by (metis prod.collapse)
  then show ?thesis
    unfolding wf_graph_def list_all_iff using dn da k by simp
qed

lemma create_graph_wf: "wf_graph (create_graph L rows)"
  using create_graph_ok [of L rows] graph_ok_wf [of L "create_graph L rows"] by simp

lemma init_graph_grid_wf: "wf_graph (graph (init_graph_grid L rows))"
  by (simp add: init_graph_grid_def create_graph_wf)

text \<open>
  C2.  For a grid with pairwise distinct ids, the graph of \<open>create_graph\<close> has a node for
  the id of a cell exactly when the cell is passable, and every node is the id of a cell; no
  node is its own neighbour; the weight stored for \<open>(u, v)\<close> is the weight stored for
  \<open>(v, u)\<close>, and \<open>v\<close> is a neighbour of \<open>u\<close> exactly when \<open>u\<close> is one of \<open>v\<close>; every edge joins
  two passable cells and its weight is the distance of their centroids, which is not negative.
\<close>

theorem create_graph_invariants:
  assumes "distinct (map cell_id rows)"
  shows "(\<forall>c \<in> set rows. has_node (create_graph L rows) (cell_id c) \<longleftrightarrow> passable c)
    \<and> (\<forall>n. has_node (create_graph L rows) n \<longrightarrow> (\<exists>c \<in> set rows. cell_id c = n))
    \<and> (\<forall>u. edge_weight (create_graph L rows) u u = None)
    \<and> (\<forall>u v. edge_weight (create_graph L rows) u v = edge_weight (create_graph L rows) v u)
    \<and> (\<forall>u v w. edge_weight (create_graph L rows) u v = Some w \<longrightarrow>
          (\<exists>cu \<in> set rows. \<exists>cv \<in> set rows.
             cell_id cu = u \<and> cell_id cv = v \<and> passable cu \<and> passable cv
             \<and> w = distance (centroid L (geometry cu)) (centroid L (geometry cv)) \<and> 0 \<le> w))"
proof -
  define G where "G = create_graph L rows"
  from create_graph_ok [of L rows] have ok: "graph_ok L G"
    and hn: "\<forall>n. has_node G n \<longleftrightarrow> (\<exists>c \<in> set rows. passable c \<and> cell_id c = n)"
    and ng: "\<forall>n g. map_of (nodes G) n = Some g
          \<longrightarrow> (\<exists>c \<in> set rows. passable c \<and> cell_id c = n \<and> geometry c = g)"
    unfolding G_def by blast+
  have e: "\<forall>u v w. edge_weight G u v = Some w \<longrightarrow>
           u \<noteq> v \<and> edge_weight G v u = Some w
           \<and> (\<exists>gu gv. map_of (nodes G) u = Some gu \<and> map_of (nodes G) v = Some gv
                  \<and> w = distance (centroid L gu) (centroid L gv))"
    using ok unfolding graph_ok_def by blast
  have same: "c' = c" if "c \<in> set rows" "c' \<in> set rows" "cell_id c' = cell_id c" for c c'
    using assms that by (metis (no_types, lifting) distinct_map inj_onD)
  have a1: "\<forall>c \<in> set rows. has_node G (cell_id c) \<longleftrightarrow> passable c"
  proof
    fix c assume c: "c \<in> set rows"
    show "has_node G (cell_id c) \<longleftrightarrow> passable c"
    proof
      assume "has_node G (cell_id c)"
      with hn obtain c' where "c' \<in> set rows" "passable c'" "cell_id c' = cell_id c" by blast
      with same [OF c] show "passable c" by blast
    next
      assume "passable c"
      with hn c show "has_node G (cell_id c)" by blast
    qed
  qed
  have a2: "\<forall>n. has_node G n \<longrightarrow> (\<exists>c \<in> set rows. cell_id c = n)"
    using hn by blast
  have a3: "\<forall>u. edge_weight G u u = None"
  proof
    fix u show "edge_weight G u u = None"
    proof (rule ccontr)
      assume "edge_weight G u u \<noteq> None"
      then obtain w where "edge_weight G u u = Some w" by blast
      with e have "u \<noteq> u" by blast
      then show False by simp
    qed
  qed
  have a4: "\<forall>u v. edge_weight G u v = edge_weight G v u"
  proof (intro allI)
    fix u v show "edge_weight G u v = edge_weight G v u"
    proof (cases "edge_weight G u v")
      case None
      show ?thesis
      proof (cases "edge_weight G v u")
        case n: None
        with None show ?thesis by simp
      next
        case (Some w)
        with e have "edge_weight G u v = Some w" by blast
        with None show ?thesis by simp
      qed
    next
      case (Some w)
      with e have "edge_weight G v u = Some w" by blast
      with Some show ?thesis by simp
    qed
  qed
  have a5: "\<forall>u v w. edge_weight G u v = Some w \<longrightarrow>
          (\<exists>cu \<in> set rows. \<exists>cv \<in> set rows.
             cell_id cu = u \<and> cell_id cv = v \<and> passable cu \<and> passable cv
             \<and> w = distance (centroid L (geometry cu)) (centroid L (geometry cv)) \<and> 0 \<le> w)"
  proof (intro allI impI)
    fix u v w assume "edge_weight G u v = Some w"
    with e obtain gu gv where g: "map_of (nodes G) u = Some gu" "map_of (nodes G) v = Some gv"
      "w = distance (centroid L gu) (centroid L gv)" by blast
    from ng g(1) obtain cu where cu: "cu \<in> set rows" "passable cu" "cell_id cu = u" "geometry cu = gu"
      by blast
    from ng g(2) obtain cv where cv: "cv \<in> set rows" "passable cv" "cell_id cv = v" "geometry cv = gv"
      by blast
    from cu cv g(3) distance_nonneg [of "centroid L gu" "centroid L gv"]
    show "\<exists>cu \<in> set rows. \<exists>cv \<in> set rows.
             cell_id cu = u \<and> cell_id cv = v \<and> passable cu \<and> passable cv
             \<and> w = distance (centroid L (geometry cu)) (centroid L (geometry cv)) \<and> 0 \<le> w"
      by blast
  qed
  show ?thesis
    using a1 a2 a3 a4 a5 unfolding G_def by (intro conjI)
qed

lemma corridor_cents:
  "centroid bbox_geos (box 0 0 10 10) = (5, 5)"
  "centroid bbox_geos (box 10 0 20 10) = (15, 5)"
  "centroid bbox_geos (box 20 0 30 10) = (25, 5)"
  by (simp_all add: box_centroid)

lemma corridor_joined:
  "sjoin bbox_geos corridor (map (\<lambda>c. c\<lparr>geometry := buffer bbox_geos (geometry c) 1\<rparr>) corridor)
     = [(0, 0), (0, 1), (1, 0), (1, 1), (1, 2), (2, 1), (2, 2), (2, 3), (3, 2), (3, 3), (3, 4),
        (4, 3), (4, 4)]"
  by (simp add: sjoin_def corridor_def bbox_geos_def bounds_def expand_def boxes_meet_def
      box_of_def box_def)

lemma corridor_groups:
  "groupby_id_left [(0, 0), (0, 1), (1, 0), (1, 1), (1, 2), (2, 1), (2, 2), (2, 3), (3, 2), (3, 3),
        (3, 4), (4, 3), (4, 4)]
     = [(0, [0, 1]), (1, [0, 1, 2]), (2, [1, 2, 3]), (3, [2, 3, 4]), (4, [3, 4])]"
  by (simp add: groupby_id_left_def)

lemma corridor_phase1:
  "fold (\<lambda>row G. if passable row then add_node (cell_id row) (geometry row) G else G) corridor empty_graph
     = \<lparr>nodes = corridor_nodes, adj = [(0, []), (1, []), (2, []), (4, [])]\<rparr>"
  by (simp add: corridor_def empty_graph_def add_node_def has_node_def corridor_nodes_def)

lemma corridor_has_node:
  "has_node \<lparr>nodes = corridor_nodes, adj = al\<rparr> n \<longleftrightarrow> n = 0 \<or> n = 1 \<or> n = 2 \<or> n = 4"
  by (auto simp: has_node_def corridor_nodes_def)

lemma corridor_link:
  "link bbox_geos 0 1 \<lparr>nodes = corridor_nodes, adj = al\<rparr>
     = add_edge 0 1 10 \<lparr>nodes = corridor_nodes, adj = al\<rparr>"
  "link bbox_geos 1 0 \<lparr>nodes = corridor_nodes, adj = al\<rparr>
     = add_edge 1 0 10 \<lparr>nodes = corridor_nodes, adj = al\<rparr>"
  "link bbox_geos 1 2 \<lparr>nodes = corridor_nodes, adj = al\<rparr>
     = add_edge 1 2 10 \<lparr>nodes = corridor_nodes, adj = al\<rparr>"
  "link bbox_geos 2 1 \<lparr>nodes = corridor_nodes, adj = al\<rparr>
     = add_edge 2 1 10 \<lparr>nodes = corridor_nodes, adj = al\<rparr>"
  "link bbox_geos n 3 \<lparr>nodes = corridor_nodes, adj = al\<rparr> = \<lparr>nodes = corridor_nodes, adj = al\<rparr>"
  "link bbox_geos n n G = G"
  by (simp_all add: link_def corridor_has_node)
    (simp_all add: corridor_nodes_def corridor_cents distance_def)

lemma add_edge_explicit:
  "add_edge u v w \<lparr>nodes = ns, adj = al\<rparr>
     = \<lparr>nodes = ns,
        adj = AList.update v (AList.update u w
                 (case map_of (AList.update u (AList.update v w (case map_of al u of None \<Rightarrow> [] | Some l \<Rightarrow> l)) al) v of
                    None \<Rightarrow> [] | Some l \<Rightarrow> l))
               (AList.update u (AList.update v w (case map_of al u of None \<Rightarrow> [] | Some l \<Rightarrow> l)) al)\<rparr>"
  by (simp add: add_edge_def Let_def neighbors_def)

lemma create_graph_corridor: "create_graph bbox_geos corridor = corridor_graph"
  unfolding create_graph_def Let_def corridor_joined corridor_groups corridor_phase1
  by (simp add: corridor_has_node corridor_link add_edge_explicit corridor_graph_def)

lemma corridor_wf: "wf_graph corridor_graph"
  using create_graph_ok [of bbox_geos corridor] graph_ok_wf [of bbox_geos corridor_graph]
  by (simp add: create_graph_corridor)

lemma corridor_astar:
  "astar_path corridor_graph 0 2 = Some (Inr [0, 1, 2])"
  "astar_path corridor_graph 0 4 = Some (Inl (NetworkXNoPath 0 4))"
  by (code_simp, code_simp)

lemma closed_set_no_path:
  assumes "\<forall>u \<in> S. \<forall>v. edge_weight G u v \<noteq> None \<longrightarrow> v \<in> S" and "s \<in> S" and "t \<notin> S"
  shows "\<not> connects G s t q"
proof -
  have "is_path G p \<Longrightarrow> hd p \<in> S \<Longrightarrow> last p \<in> S" for p
  proof (induction p rule: induct_list012)
    case (3 u v p)
    from "3.prems" have e: "edge_weight G u v \<noteq> None" and ip: "is_path G (v # p)" and u: "u \<in> S"
      by simp_all
    from assms(1) u e have "v \<in> S" by blast
    with "3.IH"(2) ip have "last (v # p) \<in> S" by simp
    then show ?case by simp
  qed simp_all
  with assms(2,3) show ?thesis by (auto simp: connects_def)
qed

theorem create_graph_invariants_witness:
  "distinct (map cell_id corridor)
   \<and> create_graph bbox_geos corridor = corridor_graph
   \<and> has_node corridor_graph 2 \<and> \<not> has_node corridor_graph 3
   \<and> edge_weight corridor_graph 0 1 = Some 10
   \<and> edge_weight corridor_graph 1 0 = edge_weight corridor_graph 0 1
   \<and> edge_weight corridor_graph 1 1 = None"
proof -
  have d: "distinct (map cell_id corridor)" by (simp add: corridor_def)
  note T = create_graph_invariants [OF d, of bbox_geos]
  from T have n: "\<forall>c \<in> set corridor. has_node (create_graph bbox_geos corridor) (cell_id c) \<longleftrightarrow> passable c"
    by blast
  have n2: "has_node (create_graph bbox_geos corridor) 2" and n3: "\<not> has_node (create_graph bbox_geos corridor) 3"
    using n by (simp_all add: corridor_def)
  from T have s: "edge_weight (create_graph bbox_geos corridor) 1 0 = edge_weight (create_graph bbox_geos corridor) 0 1"
    and l: "edge_weight (create_graph bbox_geos corridor) 1 1 = None"
    by blast+
  have e: "edge_weight corridor_graph 0 1 = Some 10"
    by (simp add: corridor_graph_def edge_weight_def neighbors_def)
  show ?thesis
    using d n2 n3 s l e by (simp add: create_graph_corridor)
qed

theorem find_path_shortest_witness:
  "wf_graph (graph (init_graph_grid bbox_geos corridor))
   \<and> has_node (graph (init_graph_grid bbox_geos corridor)) 0
   \<and> has_node (graph (init_graph_grid bbox_geos corridor)) 2
   \<and> connects (graph (init_graph_grid bbox_geos corridor)) 0 2 [0, 1, 0, 1, 2]
   \<and> find_path (init_graph_grid bbox_geos corridor) 0 2
       = Some (Inr [0, 1, 2],
           (init_graph_grid bbox_geos corridor)\<lparr>start_id := Some 0, end_id := Some 2, path := Some [0, 1, 2]\<rparr>)
   \<and> path_weight (graph (init_graph_grid bbox_geos corridor)) [0, 1, 2]
       \<le> path_weight (graph (init_graph_grid bbox_geos corridor)) [0, 1, 0, 1, 2]"
proof -
  define gg where "gg = init_graph_grid bbox_geos corridor"
  have g: "graph gg = corridor_graph"
    by (simp add: gg_def init_graph_grid_def create_graph_corridor)
  have wf: "wf_graph (graph gg)" using corridor_wf by (simp add: g)
  have n: "has_node (graph gg) 0" "has_node (graph gg) 2"
    by (simp_all add: g corridor_graph_def corridor_has_node)
  have c: "connects (graph gg) 0 2 [0, 1, 0, 1, 2]"
    by (simp add: g connects_def corridor_graph_def edge_weight_def neighbors_def corridor_has_node)
  have f: "find_path gg 0 2 = Some (Inr [0, 1, 2], gg\<lparr>start_id := Some 0, end_id := Some 2, path := Some [0, 1, 2]\<rparr>)"
    using n by (simp add: find_path_def g corridor_astar)
  from find_path_shortest [OF wf n c] f
  have "path_weight (graph gg) [0, 1, 2] \<le> path_weight (graph gg) [0, 1, 0, 1, 2]"
    using c by auto
  with wf n c f show ?thesis unfolding gg_def by simp
qed

theorem find_path_no_path_witness:
  "wf_graph (graph (init_graph_grid bbox_geos corridor))
   \<and> has_node (graph (init_graph_grid bbox_geos corridor)) 0
   \<and> has_node (graph (init_graph_grid bbox_geos corridor)) 4
   \<and> (\<forall>q. \<not> connects (graph (init_graph_grid bbox_geos corridor)) 0 4 q)
   \<and> find_path (init_graph_grid bbox_geos corridor) 0 4
       = Some (Inl (NetworkXNoPath 0 4),
           (init_graph_grid bbox_geos corridor)\<lparr>start_id := Some 0, end_id := Some 4\<rparr>)"
proof -
  define gg where "gg = init_graph_grid bbox_geos corridor"
  have g: "graph gg = corridor_graph"
    by (simp add: gg_def init_graph_grid_def create_graph_corridor)
  have wf: "wf_graph (graph gg)" using corridor_wf by (simp add: g)
  have n: "has_node (graph gg) 0" "has_node (graph gg) 4"
    by (simp_all add: g corridor_graph_def corridor_has_node)
  have cl: "\<forall>u \<in> {0, 1, 2}. \<forall>v. edge_weight corridor_graph u v \<noteq> None \<longrightarrow> v \<in> {0, 1, 2}"
    by (auto simp: corridor_graph_def edge_weight_def neighbors_def split: if_splits)
  have np: "\<forall>q. \<not> connects (graph gg) 0 4 q"
    unfolding g using closed_set_no_path [OF cl, of 0 4] by simp
  from find_path_no_path [OF wf n np] wf n np show ?thesis
    unfolding gg_def by simp
qed

end
